theory Spec2Isabelle
  imports Main "HOL-Library.Word"
begin

unbundle bit_operations_syntax

section \<open>Shortcut state (sway/input/keyboard.c)\<close>

type_synonym u32 = "32 word"

text \<open>
  The constants that keyboard.c takes from headers outside this file
  (sway/input/keyboard.h, sway/config.h, xkbcommon). Their values are not fixed here:
  every function that reads one takes this record as its first argument.
\<close>

record header_constants =
  SWAY_KEYBOARD_PRESSED_KEYS_CAP :: nat
  BINDING_RELEASE :: u32
  BINDING_LOCKED :: u32
  XKB_LAYOUT_INVALID :: u32
  XKB_KEY_XF86Switch_VT_1 :: u32
  XKB_KEY_XF86Switch_VT_12 :: u32

text \<open>
  \<^verbatim>\<open>struct sway_shortcut_state\<close>: two parallel arrays of
  \<^verbatim>\<open>SWAY_KEYBOARD_PRESSED_KEYS_CAP\<close> entries, of which the first \<open>npressed\<close> are in
  use, and three scratch fields. The arrays are lists of that length.
\<close>

record sway_shortcut_state =
  pressed_keys :: "u32 list"
  pressed_keycodes :: "u32 list"
  last_keycode :: u32
  last_raw_modifiers :: u32
  npressed :: nat
  current_key :: u32

text \<open>The state that \<^verbatim>\<open>calloc\<close> in \<^verbatim>\<open>sway_keyboard_create\<close> produces.\<close>

definition shortcut_state_zero :: "header_constants \<Rightarrow> sway_shortcut_state" where
  "shortcut_state_zero hc =
     \<lparr>pressed_keys = replicate (SWAY_KEYBOARD_PRESSED_KEYS_CAP hc) 0,
      pressed_keycodes = replicate (SWAY_KEYBOARD_PRESSED_KEYS_CAP hc) 0,
      last_keycode = 0, last_raw_modifiers = 0, npressed = 0, current_key = 0\<rparr>"

text \<open>
  The arrays have \<^verbatim>\<open>SWAY_KEYBOARD_PRESSED_KEYS_CAP\<close> entries and \<open>npressed\<close> stays
  inside them, so that every array access of the functions below is in range.
\<close>

definition state_wf :: "header_constants \<Rightarrow> sway_shortcut_state \<Rightarrow> bool" where
  "state_wf hc s \<longleftrightarrow>
     length (pressed_keys s) = SWAY_KEYBOARD_PRESSED_KEYS_CAP hc \<and>
     length (pressed_keycodes s) = SWAY_KEYBOARD_PRESSED_KEYS_CAP hc \<and>
     npressed s \<le> SWAY_KEYBOARD_PRESSED_KEYS_CAP hc"

text \<open>The pressed sequence: the used prefix, as (identifier, origin keycode) pairs.\<close>

definition pressed :: "sway_shortcut_state \<Rightarrow> (u32 \<times> u32) list" where
  "pressed s = take (npressed s) (zip (pressed_keys s) (pressed_keycodes s))"

subsection \<open>\<^verbatim>\<open>state_erase_key\<close>\<close>

text \<open>
  One iteration of the compacting \<^verbatim>\<open>for\<close> loop, at index \<open>i\<close>, on the arrays, the
  write index \<open>j\<close> and the flag \<open>found\<close>.
\<close>

fun state_erase_key_body ::
  "u32 \<Rightarrow> nat \<Rightarrow> u32 list \<times> u32 list \<times> nat \<times> bool \<Rightarrow> u32 list \<times> u32 list \<times> nat \<times> bool" where
  "state_erase_key_body keycode i (keys, codes, j, found) =
     (let keys' = (if i > j then keys[j := keys ! i] else keys);
          codes' = (if i > j then codes[j := codes ! i] else codes)
      in if codes' ! i \<noteq> keycode then (keys', codes', Suc j, found)
         else (keys', codes', j, True))"

text \<open>The trailing \<^verbatim>\<open>while (state->npressed > j)\<close> loop, which zeroes the freed slots.\<close>

function state_erase_key_clear :: "nat \<Rightarrow> sway_shortcut_state \<Rightarrow> sway_shortcut_state" where
  "state_erase_key_clear j s =
     (if npressed s > j then
        (let n = npressed s - 1
         in state_erase_key_clear j
              (s\<lparr>npressed := n,
                 pressed_keys := (pressed_keys s)[n := 0],
                 pressed_keycodes := (pressed_keycodes s)[n := 0]\<rparr>))
      else s)"
  by pat_completeness auto
termination
  by (relation "measure (\<lambda>(j, s). npressed s - j)") auto

declare state_erase_key_clear.simps [simp del]

definition state_erase_key :: "sway_shortcut_state \<Rightarrow> u32 \<Rightarrow> bool \<times> sway_shortcut_state" where
  "state_erase_key s keycode =
     (case fold (state_erase_key_body keycode) [0..<npressed s]
             (pressed_keys s, pressed_keycodes s, 0, False) of
        (keys, codes, j, found) \<Rightarrow>
          (found,
           (state_erase_key_clear j (s\<lparr>pressed_keys := keys, pressed_keycodes := codes\<rparr>))
             \<lparr>current_key := 0\<rparr>))"

subsection \<open>\<^verbatim>\<open>state_add_key\<close>\<close>

text \<open>\<^verbatim>\<open>while (i < state->npressed && state->pressed_keys[i] < key_id) ++i;\<close>\<close>

function state_add_key_find :: "u32 list \<Rightarrow> nat \<Rightarrow> u32 \<Rightarrow> nat \<Rightarrow> nat" where
  "state_add_key_find keys n key_id i =
     (if i < n \<and> keys ! i < key_id then state_add_key_find keys n key_id (Suc i) else i)"
  by pat_completeness auto
termination
  by (relation "measure (\<lambda>(keys, n, key_id, i). n - i)") auto

declare state_add_key_find.simps [simp del]

text \<open>\<^verbatim>\<open>while (j > i) { keys[j] = keys[j - 1]; codes[j] = codes[j - 1]; --j; }\<close>\<close>

function state_add_key_shift :: "nat \<Rightarrow> nat \<Rightarrow> u32 list \<times> u32 list \<Rightarrow> u32 list \<times> u32 list" where
  "state_add_key_shift i j (keys, codes) =
     (if j > i then
        state_add_key_shift i (j - 1) (keys[j := keys ! (j - 1)], codes[j := codes ! (j - 1)])
      else (keys, codes))"
  by pat_completeness auto
termination
  by (relation "measure (\<lambda>(i, j, kc). j)") auto

declare state_add_key_shift.simps [simp del]

definition state_add_key ::
  "header_constants \<Rightarrow> sway_shortcut_state \<Rightarrow> u32 \<Rightarrow> u32 \<Rightarrow> sway_shortcut_state" where
  "state_add_key hc s keycode key_id =
     (if npressed s \<ge> SWAY_KEYBOARD_PRESSED_KEYS_CAP hc then s
      else
        (let i = state_add_key_find (pressed_keys s) (npressed s) key_id 0;
             (keys, codes) = state_add_key_shift i (npressed s) (pressed_keys s, pressed_keycodes s)
         in s\<lparr>pressed_keys := keys[i := key_id],
              pressed_keycodes := codes[i := keycode],
              npressed := npressed s + 1,
              current_key := key_id\<rparr>))"

subsection \<open>\<^verbatim>\<open>update_shortcut_state\<close>\<close>

datatype wlr_key_state = WLR_KEY_RELEASED | WLR_KEY_PRESSED

text \<open>\<^verbatim>\<open>struct wlr_event_keyboard_key\<close>, the fields that keyboard.c reads.\<close>

record wlr_event_keyboard_key =
  e_time_msec :: u32
  e_keycode :: u32
  e_state :: wlr_key_state

definition update_shortcut_state ::
  "header_constants \<Rightarrow> sway_shortcut_state \<Rightarrow> wlr_event_keyboard_key \<Rightarrow> u32 \<Rightarrow> u32 \<Rightarrow>
   bool \<times> sway_shortcut_state" where
  "update_shortcut_state hc s event new_key raw_modifiers =
     (let last_key_was_a_modifier = (raw_modifiers \<noteq> last_raw_modifiers s);
          s1 = s\<lparr>last_raw_modifiers := raw_modifiers\<rparr>;
          s2 = (if last_key_was_a_modifier \<and> last_keycode s1 \<noteq> 0
                then snd (state_erase_key s1 (last_keycode s1)) else s1)
      in if e_state event = WLR_KEY_PRESSED then
           (False, (state_add_key hc s2 (e_keycode event) new_key)\<lparr>last_keycode := e_keycode event\<rparr>)
         else state_erase_key s2 (e_keycode event))"

section \<open>Binding resolver: \<^verbatim>\<open>get_active_binding\<close>\<close>

text \<open>
  \<^verbatim>\<open>struct sway_binding\<close>, the fields that keyboard.c reads. \<open>b_keys\<close> is the
  \<^verbatim>\<open>list_t\<close> of required identifiers. Bindings are compared by address in the source,
  so a binding table is a list of addresses and the bindings live in a read-only heap.
\<close>

record sway_binding =
  b_order :: int
  b_input :: string
  b_flags :: u32
  b_keys :: "u32 list"
  b_modifiers :: u32
  b_group :: u32

type_synonym binding_ptr = nat

text \<open>
  The first \<^verbatim>\<open>continue\<close> of the loop body: the condition under which a binding is
  passed over before its keys are looked at.
\<close>

definition binding_filtered_out ::
  "header_constants \<Rightarrow> sway_binding \<Rightarrow> u32 \<Rightarrow> bool \<Rightarrow> bool \<Rightarrow> string \<Rightarrow> bool \<Rightarrow> u32 \<Rightarrow> bool" where
  "binding_filtered_out hc binding modifiers release locked input exact_input grp =
     (let binding_locked = ((b_flags binding AND BINDING_LOCKED hc) \<noteq> 0);
          binding_release = ((b_flags binding AND BINDING_RELEASE hc) \<noteq> 0)
      in (modifiers XOR b_modifiers binding) \<noteq> 0 \<or>
         release \<noteq> binding_release \<or>
         locked > binding_locked \<or>
         (b_group binding \<noteq> XKB_LAYOUT_INVALID hc \<and> b_group binding \<noteq> grp) \<or>
         (b_input binding \<noteq> input \<and> (b_input binding \<noteq> ''*'' \<or> exact_input)))"

text \<open>
  The computation of \<^verbatim>\<open>match\<close>: position by position when the sizes agree (the
  loop with \<^verbatim>\<open>break\<close> is the conjunction over the indices), else the single-key
  comparison with \<open>current_key\<close>.
\<close>

definition binding_match :: "sway_shortcut_state \<Rightarrow> sway_binding \<Rightarrow> bool" where
  "binding_match state binding =
     (if npressed state = length (b_keys binding) then
        list_all (\<lambda>j. b_keys binding ! j = pressed_keys state ! j) [0..<npressed state]
      else if length (b_keys binding) = 1 then current_key state = b_keys binding ! 0
      else False)"

text \<open>
  The block under \<^verbatim>\<open>if (*current_binding)\<close>: true when one of its five
  \<^verbatim>\<open>continue\<close> statements is reached, so that the binding chosen so far is kept.
\<close>

definition binding_keeps_current ::
  "header_constants \<Rightarrow> (binding_ptr \<Rightarrow> sway_binding) \<Rightarrow> binding_ptr \<Rightarrow> binding_ptr \<Rightarrow>
   bool \<Rightarrow> string \<Rightarrow> u32 \<Rightarrow> bool" where
  "binding_keeps_current hc heap cur p locked input grp =
     (if cur = p then True
      else
        (let current = heap cur; binding = heap p;
             binding_locked = ((b_flags binding AND BINDING_LOCKED hc) \<noteq> 0);
             current_locked = ((b_flags current AND BINDING_LOCKED hc) \<noteq> 0);
             current_input = (b_input current = input);
             current_group_set = (b_group current \<noteq> XKB_LAYOUT_INVALID hc);
             binding_input = (b_input binding = input);
             binding_group_set = (b_group binding \<noteq> XKB_LAYOUT_INVALID hc)
         in if current_input = binding_input \<and> current_locked = binding_locked \<and>
               current_group_set = binding_group_set then True
            else if current_input \<and> \<not> binding_input then True
            else if current_input = binding_input \<and> b_group current = grp then True
            else if current_input = binding_input \<and> current_group_set = binding_group_set \<and>
                    current_locked = locked then True
            else False))"

text \<open>
  The test before \<^verbatim>\<open>return\<close>: the masked flag word is compared with the
  \<^verbatim>\<open>bool\<close> \<open>locked\<close>, that is with 0 or 1.
\<close>

definition binding_perfect ::
  "header_constants \<Rightarrow> sway_binding \<Rightarrow> bool \<Rightarrow> string \<Rightarrow> u32 \<Rightarrow> bool" where
  "binding_perfect hc current locked input grp \<longleftrightarrow>
     b_input current = input \<and>
     (b_flags current AND BINDING_LOCKED hc) = (if locked then 1 else 0) \<and>
     b_group current = grp"

fun get_active_binding ::
  "header_constants \<Rightarrow> (binding_ptr \<Rightarrow> sway_binding) \<Rightarrow> sway_shortcut_state \<Rightarrow>
   binding_ptr list \<Rightarrow> binding_ptr option \<Rightarrow> u32 \<Rightarrow> bool \<Rightarrow> bool \<Rightarrow> string \<Rightarrow> bool \<Rightarrow> u32 \<Rightarrow>
   binding_ptr option" where
  "get_active_binding hc heap state [] current_binding
     modifiers release locked input exact_input grp = current_binding"
| "get_active_binding hc heap state (p # bindings) current_binding
     modifiers release locked input exact_input grp =
     (if binding_filtered_out hc (heap p) modifiers release locked input exact_input grp then
        get_active_binding hc heap state bindings current_binding
          modifiers release locked input exact_input grp
      else if \<not> binding_match state (heap p) then
        get_active_binding hc heap state bindings current_binding
          modifiers release locked input exact_input grp
      else if (case current_binding of None \<Rightarrow> False
               | Some cur \<Rightarrow> binding_keeps_current hc heap cur p locked input grp) then
        get_active_binding hc heap state bindings current_binding
          modifiers release locked input exact_input grp
      else if binding_perfect hc (heap p) locked input grp then Some p
      else
        get_active_binding hc heap state bindings (Some p)
          modifiers release locked input exact_input grp)"

section \<open>Event dispatcher\<close>

text \<open>
  \<^verbatim>\<open>struct sway_keyboard\<close>, the fields that the key handlers use. A \<^verbatim>\<open>NULL\<close>
  binding is \<open>None\<close>. \<open>key_repeat_source\<close> is the delay in milliseconds at which the
  repeat timer was last set; 0 means disarmed, as for
  \<^verbatim>\<open>wl_event_source_timer_update\<close>. The source only logs a failure of that call; the
  model takes the call to succeed.
\<close>

record sway_keyboard =
  state_keycodes :: sway_shortcut_state
  state_keysyms_translated :: sway_shortcut_state
  state_keysyms_raw :: sway_shortcut_state
  state_pressed_sent :: sway_shortcut_state
  effective_layout :: u32
  held_binding :: "binding_ptr option"
  repeat_binding :: "binding_ptr option"
  key_repeat_source :: int

text \<open>The keyboard that \<^verbatim>\<open>sway_keyboard_create\<close> allocates with \<^verbatim>\<open>calloc\<close>.\<close>

definition sway_keyboard_create :: "header_constants \<Rightarrow> sway_keyboard" where
  "sway_keyboard_create hc =
     \<lparr>state_keycodes = shortcut_state_zero hc,
      state_keysyms_translated = shortcut_state_zero hc,
      state_keysyms_raw = shortcut_state_zero hc,
      state_pressed_sent = shortcut_state_zero hc,
      effective_layout = 0, held_binding = None, repeat_binding = None,
      key_repeat_source = 0\<rparr>"

text \<open>
  What one call of \<^verbatim>\<open>handle_key_event\<close> reads from outside the keyboard: the
  device (identifier, group membership, repeat settings), the seat, the answers of
  wlroots and xkbcommon for the event's keycode, the binding tables of the current mode,
  and whether a session is there for a VT switch.
\<close>

record event_context =
  device_identifier :: string
  keyboard_in_group :: bool
  exclusive_client :: bool
  wlr_keyboard_modifiers :: u32
  xkb_consumed_mods :: u32
  xkb_translated_syms :: "u32 list"
  xkb_raw_syms :: "u32 list"
  repeat_info_delay :: int
  repeat_info_rate :: int
  keycode_bindings :: "binding_ptr list"
  keysym_bindings :: "binding_ptr list"
  bindings_heap :: "binding_ptr \<Rightarrow> sway_binding"
  backend_session :: bool

text \<open>
  The calls that leave keyboard.c, in the order they are made. What a command does when
  it is executed is outside this file: executing a binding is recorded, and the model
  takes the keyboard to be unchanged by it.
\<close>

datatype action =
    Seat_idle_notify_activity
  | Seat_execute_command binding_ptr
  | Wl_event_source_timer_update int
  | Wlr_session_change_vt u32
  | Wlr_seat_set_keyboard
  | Wlr_seat_keyboard_notify_key u32 u32 wlr_key_state
  | Transaction_commit_dirty

fun keyboard_execute_compositor_binding ::
  "header_constants \<Rightarrow> event_context \<Rightarrow> u32 list \<Rightarrow> bool \<times> action list" where
  "keyboard_execute_compositor_binding hc ctx [] = (False, [])"
| "keyboard_execute_compositor_binding hc ctx (keysym # pressed_keysyms) =
     (if keysym \<ge> XKB_KEY_XF86Switch_VT_1 hc \<and> keysym \<le> XKB_KEY_XF86Switch_VT_12 hc then
        (True,
         if backend_session ctx
         then [Wlr_session_change_vt (keysym - XKB_KEY_XF86Switch_VT_1 hc + 1)] else [])
      else keyboard_execute_compositor_binding hc ctx pressed_keysyms)"

definition keyboard_keysyms_translated :: "event_context \<Rightarrow> u32 list \<times> u32" where
  "keyboard_keysyms_translated ctx =
     (xkb_translated_syms ctx, wlr_keyboard_modifiers ctx AND NOT (xkb_consumed_mods ctx))"

definition keyboard_keysyms_raw :: "event_context \<Rightarrow> u32 list \<times> u32" where
  "keyboard_keysyms_raw ctx = (xkb_raw_syms ctx, wlr_keyboard_modifiers ctx)"

definition sway_keyboard_disarm_key_repeat ::
  "sway_keyboard option \<Rightarrow> sway_keyboard option \<times> action list" where
  "sway_keyboard_disarm_key_repeat keyboard =
     (case keyboard of
        None \<Rightarrow> (None, [])
      | Some k \<Rightarrow>
          (Some (k\<lparr>repeat_binding := None, key_repeat_source := 0\<rparr>),
           [Wl_event_source_timer_update 0]))"

text \<open>
  The three calls of \<^verbatim>\<open>get_active_binding\<close> that share one slot, starting from
  \<^verbatim>\<open>NULL\<close>: keycodes, raw keysyms, translated keysyms. \<^verbatim>\<open>handle_key_event\<close> makes
  them once with \<open>release = true\<close> and, on a press, once with \<open>release = false\<close>.
\<close>

definition active_binding ::
  "header_constants \<Rightarrow> event_context \<Rightarrow> sway_keyboard \<Rightarrow> bool \<Rightarrow> binding_ptr option" where
  "active_binding hc ctx keyboard release =
     (let input_inhibited = exclusive_client ctx;
          exact_identifier = keyboard_in_group ctx;
          (raw_keysyms, raw_modifiers) = keyboard_keysyms_raw ctx;
          (translated_keysyms, translated_modifiers) = keyboard_keysyms_translated ctx;
          code_modifiers = wlr_keyboard_modifiers ctx;
          binding = get_active_binding hc (bindings_heap ctx) (state_keycodes keyboard)
            (keycode_bindings ctx) None code_modifiers release input_inhibited
            (device_identifier ctx) exact_identifier (effective_layout keyboard);
          binding = get_active_binding hc (bindings_heap ctx) (state_keysyms_raw keyboard)
            (keysym_bindings ctx) binding raw_modifiers release input_inhibited
            (device_identifier ctx) exact_identifier (effective_layout keyboard)
      in get_active_binding hc (bindings_heap ctx) (state_keysyms_translated keyboard)
            (keysym_bindings ctx) binding translated_modifiers release input_inhibited
            (device_identifier ctx) exact_identifier (effective_layout keyboard))"

text \<open>The block under \<^verbatim>\<open>// Update shortcut model state\<close>.\<close>

definition update_shortcut_states ::
  "header_constants \<Rightarrow> event_context \<Rightarrow> sway_keyboard \<Rightarrow> wlr_event_keyboard_key \<Rightarrow> sway_keyboard" where
  "update_shortcut_states hc ctx keyboard event =
     (let keycode = e_keycode event + 8;
          code_modifiers = wlr_keyboard_modifiers ctx
      in keyboard
          \<lparr>state_keycodes :=
             snd (update_shortcut_state hc (state_keycodes keyboard) event keycode code_modifiers),
           state_keysyms_raw :=
             fold (\<lambda>sym s. snd (update_shortcut_state hc s event sym code_modifiers))
               (fst (keyboard_keysyms_raw ctx)) (state_keysyms_raw keyboard),
           state_keysyms_translated :=
             fold (\<lambda>sym s. snd (update_shortcut_state hc s event sym code_modifiers))
               (fst (keyboard_keysyms_translated ctx)) (state_keysyms_translated keyboard)\<rparr>)"

text \<open>
  The three statements under \<^verbatim>\<open>// Execute stored release binding once no longer active\<close>:
  the held binding to execute (if any) and the new value of \<open>held_binding\<close>.
\<close>

definition release_held_binding ::
  "sway_keyboard \<Rightarrow> wlr_event_keyboard_key \<Rightarrow> binding_ptr option \<Rightarrow>
   sway_keyboard \<times> action list \<times> bool" where
  "release_held_binding keyboard event binding_released =
     (let execute_held =
            (held_binding keyboard \<noteq> None \<and> binding_released \<noteq> held_binding keyboard \<and>
             e_state event = WLR_KEY_RELEASED);
          acts = (case held_binding keyboard of
                    Some held \<Rightarrow> if execute_held then [Seat_execute_command held] else []
                  | None \<Rightarrow> []);
          keyboard = (if binding_released \<noteq> held_binding keyboard
                      then keyboard\<lparr>held_binding := None\<rparr> else keyboard);
          keyboard = (if binding_released \<noteq> None \<and> e_state event = WLR_KEY_PRESSED
                      then keyboard\<lparr>held_binding := binding_released\<rparr> else keyboard)
      in (keyboard, acts, execute_held))"

text \<open>
  The block under \<^verbatim>\<open>// Set up (or clear) keyboard repeat for a pressed binding\<close>.
\<close>

definition setup_key_repeat ::
  "event_context \<Rightarrow> sway_keyboard \<Rightarrow> binding_ptr option \<Rightarrow> sway_keyboard \<times> action list" where
  "setup_key_repeat ctx keyboard binding =
     (if binding \<noteq> None \<and> repeat_info_delay ctx > 0 then
        (keyboard\<lparr>repeat_binding := binding, key_repeat_source := repeat_info_delay ctx\<rparr>,
         [Wl_event_source_timer_update (repeat_info_delay ctx)])
      else if repeat_binding keyboard \<noteq> None then
        (case sway_keyboard_disarm_key_repeat (Some keyboard) of
           (Some k, acts) \<Rightarrow> (k, acts)
         | (None, acts) \<Rightarrow> (keyboard, acts))
      else (keyboard, []))"

text \<open>
  The last block, under \<^verbatim>\<open>if (!handled || event->state == WLR_KEY_RELEASED)\<close>: the
  "sent to client" state is updated and the key is passed to the seat.
\<close>

definition forward_key ::
  "header_constants \<Rightarrow> sway_keyboard \<Rightarrow> wlr_event_keyboard_key \<Rightarrow> bool \<Rightarrow>
   sway_keyboard \<times> action list" where
  "forward_key hc keyboard event handled =
     (if \<not> handled \<or> e_state event = WLR_KEY_RELEASED then
        (let (pressed_sent, sent) =
               update_shortcut_state hc (state_pressed_sent keyboard) event (e_keycode event + 8) 0
         in (keyboard\<lparr>state_pressed_sent := sent\<rparr>,
             if pressed_sent \<or> e_state event = WLR_KEY_PRESSED
             then [Wlr_seat_set_keyboard,
                   Wlr_seat_keyboard_notify_key (e_time_msec event) (e_keycode event) (e_state event)]
             else []))
      else (keyboard, []))"

definition handle_key_event ::
  "header_constants \<Rightarrow> event_context \<Rightarrow> sway_keyboard \<Rightarrow> wlr_event_keyboard_key \<Rightarrow>
   sway_keyboard \<times> action list" where
  "handle_key_event hc ctx keyboard event =
     (let keyboard = update_shortcut_states hc ctx keyboard event;
          binding_released = active_binding hc ctx keyboard True;
          (keyboard, acts_held, handled) = release_held_binding keyboard event binding_released;
          binding = (if e_state event = WLR_KEY_PRESSED
                     then active_binding hc ctx keyboard False else None);
          (keyboard, acts_repeat) = setup_key_repeat ctx keyboard binding;
          acts_binding = (case binding of Some b \<Rightarrow> [Seat_execute_command b] | None \<Rightarrow> []);
          handled = (handled \<or> binding \<noteq> None);
          acts = Seat_idle_notify_activity # acts_held @ acts_repeat @ acts_binding
      in if \<not> handled \<and> keyboard_in_group ctx then (keyboard, acts)
         else
           (let (handled, acts_vt1) =
                  (if \<not> handled \<and> e_state event = WLR_KEY_PRESSED
                   then keyboard_execute_compositor_binding hc ctx
                          (fst (keyboard_keysyms_translated ctx))
                   else (handled, []));
                (handled, acts_vt2) =
                  (if \<not> handled \<and> e_state event = WLR_KEY_PRESSED
                   then keyboard_execute_compositor_binding hc ctx
                          (fst (keyboard_keysyms_raw ctx))
                   else (handled, []));
                (keyboard, acts_forward) = forward_key hc keyboard event handled
            in (keyboard,
                acts @ acts_vt1 @ acts_vt2 @ acts_forward @ [Transaction_commit_dirty])))"

definition handle_keyboard_repeat ::
  "event_context \<Rightarrow> sway_keyboard \<Rightarrow> sway_keyboard \<times> action list" where
  "handle_keyboard_repeat ctx keyboard =
     (case repeat_binding keyboard of
        None \<Rightarrow> (keyboard, [])
      | Some b \<Rightarrow>
          (let (keyboard, acts) =
                 (if repeat_info_rate ctx > 0 then
                    (keyboard\<lparr>key_repeat_source := 1000 div repeat_info_rate ctx\<rparr>,
                     [Wl_event_source_timer_update (1000 div repeat_info_rate ctx)])
                  else (keyboard, []))
           in (keyboard, acts @ [Seat_execute_command b, Transaction_commit_dirty])))"

section \<open>Sequences of operations and concrete constants\<close>

text \<open>
  The three operations of a shortcut state, to speak about sequences of them:
  \<open>Add keycode key_id\<close>, \<open>Erase keycode\<close> and \<open>Update event new_key raw_modifiers\<close>.
\<close>

datatype state_op =
    Add u32 u32
  | Erase u32
  | Update wlr_event_keyboard_key u32 u32

fun apply_state_op :: "header_constants \<Rightarrow> state_op \<Rightarrow> sway_shortcut_state \<Rightarrow> sway_shortcut_state" where
  "apply_state_op hc (Add keycode key_id) s = state_add_key hc s keycode key_id"
| "apply_state_op hc (Erase keycode) s = snd (state_erase_key s keycode)"
| "apply_state_op hc (Update event new_key raw_modifiers) s =
     snd (update_shortcut_state hc s event new_key raw_modifiers)"

text \<open>The identifier that an operation inserts, if it inserts one.\<close>

fun added_key :: "state_op \<Rightarrow> u32 option" where
  "added_key (Add keycode key_id) = Some key_id"
| "added_key (Erase keycode) = None"
| "added_key (Update event new_key raw_modifiers) =
     (if e_state event = WLR_KEY_PRESSED then Some new_key else None)"

text \<open>
  A run of the dispatcher: the key events of one keyboard in order, each with the
  context it is handled in; the actions of the calls are concatenated.
\<close>

fun handle_key_events ::
  "header_constants \<Rightarrow> sway_keyboard \<Rightarrow> (event_context \<times> wlr_event_keyboard_key) list \<Rightarrow>
   sway_keyboard \<times> action list" where
  "handle_key_events hc keyboard [] = (keyboard, [])"
| "handle_key_events hc keyboard ((ctx, event) # events) =
     (let (keyboard', acts) = handle_key_event hc ctx keyboard event;
          (keyboard'', acts') = handle_key_events hc keyboard' events
      in (keyboard'', acts @ acts'))"

text \<open>
  What the focused client has been shown. \<open>client_sees P a\<close> updates the set \<open>P\<close> of
  keycodes that the client holds for pressed (a forwarded press with no forwarded release
  after it) by one action; \<open>releases_answer_presses P acts\<close> says that every release
  forwarded in \<open>acts\<close> is for a keycode that the client holds for pressed at that moment.
\<close>

fun client_sees :: "u32 set \<Rightarrow> action \<Rightarrow> u32 set" where
  "client_sees P (Wlr_seat_keyboard_notify_key t k WLR_KEY_PRESSED) = insert k P"
| "client_sees P (Wlr_seat_keyboard_notify_key t k WLR_KEY_RELEASED) = P - {k}"
| "client_sees P a = P"

fun releases_answer_presses :: "u32 set \<Rightarrow> action list \<Rightarrow> bool" where
  "releases_answer_presses P [] = True"
| "releases_answer_presses P (a # acts) =
     ((case a of Wlr_seat_keyboard_notify_key t k WLR_KEY_RELEASED \<Rightarrow> k \<in> P | _ \<Rightarrow> True) \<and>
      releases_answer_presses (client_sees P a) acts)"

text \<open>
  The values of the header constants in sway and xkbcommon. The functions above do not
  depend on them; they serve for the concrete instances below.
\<close>

definition sway_constants :: header_constants where
  "sway_constants =
     \<lparr>SWAY_KEYBOARD_PRESSED_KEYS_CAP = 32, BINDING_RELEASE = 1, BINDING_LOCKED = 2,
      XKB_LAYOUT_INVALID = 0xffffffff,
      XKB_KEY_XF86Switch_VT_1 = 0x1008FE01, XKB_KEY_XF86Switch_VT_12 = 0x1008FE0C\<rparr>"

text \<open>
  A state in which keycode 30 has produced two identifiers (38 and 97) and keycode 31
  one (39).
\<close>

definition example_state :: sway_shortcut_state where
  "example_state =
     state_add_key sway_constants
       (state_add_key sway_constants
          (state_add_key sway_constants (shortcut_state_zero sway_constants) 30 38) 31 39) 30 97"

text \<open>
  A sequence of operations in which every identifier that is inserted is not in the
  pressed sequence at that moment.
\<close>

fun fresh_ops :: "header_constants \<Rightarrow> state_op list \<Rightarrow> sway_shortcut_state \<Rightarrow> bool" where
  "fresh_ops hc [] s = True"
| "fresh_ops hc (op # ops) s =
     ((case added_key op of None \<Rightarrow> True | Some k \<Rightarrow> k \<notin> set (map fst (pressed s))) \<and>
      fresh_ops hc ops (apply_state_op hc op s))"

text \<open>Concrete sequences and states: 32 adds of distinct keys; two keys that produce
  the same keysym; a run without a repeated identifier; Shift held, then Shift and a key.\<close>

definition full_ops :: "state_op list" where
  "full_ops = map (\<lambda>k. Add (of_nat k) (of_nat k + 8)) [1..<33]"

definition same_keysym_ops :: "state_op list" where
  "same_keysym_ops =
     [Update \<lparr>e_time_msec = 0, e_keycode = 38, e_state = WLR_KEY_PRESSED\<rparr> 0x61 0,
      Update \<lparr>e_time_msec = 1, e_keycode = 40, e_state = WLR_KEY_PRESSED\<rparr> 0x61 0]"

definition distinct_ops :: "state_op list" where
  "distinct_ops =
     [Update \<lparr>e_time_msec = 0, e_keycode = 38, e_state = WLR_KEY_PRESSED\<rparr> 0x61 0,
      Add 40 0x62,
      Erase 38,
      Update \<lparr>e_time_msec = 1, e_keycode = 38, e_state = WLR_KEY_PRESSED\<rparr> 0x61 0]"

definition shift_held_state :: sway_shortcut_state where
  "shift_held_state =
     snd (update_shortcut_state sway_constants (shortcut_state_zero sway_constants)
            \<lparr>e_time_msec = 0, e_keycode = 50, e_state = WLR_KEY_PRESSED\<rparr> 58 0)"

definition shift_a_state :: sway_shortcut_state where
  "shift_a_state =
     snd (update_shortcut_state sway_constants shift_held_state
            \<lparr>e_time_msec = 1, e_keycode = 38, e_state = WLR_KEY_PRESSED\<rparr> 46 1)"

text \<open>
  Two keys held (38, then 39, giving the identifiers 46 and 47), the state after the
  second one is released, and three bindings: on the identifier 0 alone, on 47 alone, and
  on 46 and 47 with the Logo modifier, usable while locked, on layout group 1. Bindings
  3 and 4 are on the keycode identifier 46 (key 38), the first one firing on release.
\<close>

definition two_keys_state :: sway_shortcut_state where
  "two_keys_state =
     snd (update_shortcut_state sway_constants
       (snd (update_shortcut_state sway_constants (shortcut_state_zero sway_constants)
              \<lparr>e_time_msec = 0, e_keycode = 38, e_state = WLR_KEY_PRESSED\<rparr> 46 0))
       \<lparr>e_time_msec = 1, e_keycode = 39, e_state = WLR_KEY_PRESSED\<rparr> 47 0)"

definition one_key_left_state :: sway_shortcut_state where
  "one_key_left_state =
     snd (update_shortcut_state sway_constants two_keys_state
       \<lparr>e_time_msec = 2, e_keycode = 39, e_state = WLR_KEY_RELEASED\<rparr> 47 0)"

definition example_heap :: "binding_ptr \<Rightarrow> sway_binding" where
  "example_heap p =
     (if p = 0 then
        \<lparr>b_order = 0, b_input = ''*'', b_flags = 0, b_keys = [0], b_modifiers = 0,
         b_group = 0xffffffff\<rparr>
      else if p = 1 then
        \<lparr>b_order = 1, b_input = ''*'', b_flags = 0, b_keys = [47], b_modifiers = 0,
         b_group = 0xffffffff\<rparr>
      else if p = 2 then
        \<lparr>b_order = 2, b_input = ''*'', b_flags = 2, b_keys = [46, 47], b_modifiers = 64,
         b_group = 1\<rparr>
      else if p = 3 then
        \<lparr>b_order = 3, b_input = ''*'', b_flags = 1, b_keys = [46], b_modifiers = 0,
         b_group = 0xffffffff\<rparr>
      else
        \<lparr>b_order = 4, b_input = ''*'', b_flags = 0, b_keys = [46], b_modifiers = 0,
         b_group = 0xffffffff\<rparr>)"

text \<open>
  Contexts of a key event: a keyboard outside any group with no bindings and no keysyms
  for the key; the same keyboard as a member of a group; the same keyboard with the
  keycode bindings 3 and 4. \<open>held_keyboard\<close> is a new keyboard after key 38 was pressed
  with those bindings.
\<close>

definition plain_ctx :: event_context where
  "plain_ctx =
     \<lparr>device_identifier = ''1:1:AT_Translated_Set_2_keyboard'', keyboard_in_group = False,
      exclusive_client = False, wlr_keyboard_modifiers = 0, xkb_consumed_mods = 0,
      xkb_translated_syms = [], xkb_raw_syms = [],
      repeat_info_delay = 600, repeat_info_rate = 25,
      keycode_bindings = [], keysym_bindings = [], bindings_heap = example_heap,
      backend_session = True\<rparr>"

definition group_ctx :: event_context where
  "group_ctx = plain_ctx\<lparr>keyboard_in_group := True\<rparr>"

definition key_press :: "u32 \<Rightarrow> wlr_event_keyboard_key" where
  "key_press k = \<lparr>e_time_msec = 0, e_keycode = k, e_state = WLR_KEY_PRESSED\<rparr>"

definition key_release :: "u32 \<Rightarrow> wlr_event_keyboard_key" where
  "key_release k = \<lparr>e_time_msec = 0, e_keycode = k, e_state = WLR_KEY_RELEASED\<rparr>"

definition bound_ctx :: event_context where
  "bound_ctx = plain_ctx\<lparr>keycode_bindings := [3, 4]\<rparr>"

definition held_keyboard :: sway_keyboard where
  "held_keyboard =
     fst (handle_key_event sway_constants bound_ctx (sway_keyboard_create sway_constants) (key_press 38))"

text \<open>
  The key notifications among the actions, the keycodes recorded in the "sent to client"
  state of a keyboard, and the keycodes that the client holds for pressed after a list
  of actions.
\<close>

fun is_notify_key :: "action \<Rightarrow> bool" where
  "is_notify_key (Wlr_seat_keyboard_notify_key t k st) = True"
| "is_notify_key a = False"

definition sent_keycodes :: "sway_keyboard \<Rightarrow> u32 set" where
  "sent_keycodes keyboard = snd ` set (pressed (state_pressed_sent keyboard))"

definition client_holds :: "action list \<Rightarrow> u32 set" where
  "client_holds acts = fold (\<lambda>a P. client_sees P a) acts {}"

text \<open>
  The "sent to client" state is updated with the raw modifier mask 0 only, so the mask it
  records stays 0 and the previous key is never dropped from it as a modifier.
\<close>

definition sent_inv :: "header_constants \<Rightarrow> sway_keyboard \<Rightarrow> bool" where
  "sent_inv hc keyboard \<longleftrightarrow>
     state_wf hc (state_pressed_sent keyboard) \<and>
     last_raw_modifiers (state_pressed_sent keyboard) = 0"

text \<open>
  Thirty-three keys pressed one after the other on a keyboard with no bindings, then the
  last of them released; and a keyboard after the press of key 38.
\<close>

definition many_keys :: "(event_context \<times> wlr_event_keyboard_key) list" where
  "many_keys =
     map (\<lambda>k. (plain_ctx, key_press (of_nat k))) [1..<34] @ [(plain_ctx, key_release 33)]"

definition one_key_keyboard :: sway_keyboard where
  "one_key_keyboard =
     fst (handle_key_event sway_constants plain_ctx (sway_keyboard_create sway_constants)
            (key_press 38))"

text \<open>The bindings whose commands are executed by a list of actions, in order.\<close>

fun executed_commands :: "action list \<Rightarrow> binding_ptr list" where
  "executed_commands [] = []"
| "executed_commands (Seat_execute_command b # acts) = b # executed_commands acts"
| "executed_commands (a # acts) = executed_commands acts"

section \<open>The array code of the shortcut state, as list operations\<close>

lemma erase_fold_inv:
  assumes "n \<le> length keys" "length codes = length keys"
  shows "case fold (state_erase_key_body kc) [0..<n] (keys, codes, 0, False) of
     (keys', codes', j, found) \<Rightarrow>
       length keys' = length keys \<and> length codes' = length codes \<and> j \<le> n \<and>
       take j (zip keys' codes') = filter (\<lambda>p. snd p \<noteq> kc) (take n (zip keys codes)) \<and>
       (\<forall>k. n \<le> k \<longrightarrow> keys' ! k = keys ! k \<and> codes' ! k = codes ! k) \<and>
       found = (kc \<in> snd ` set (take n (zip keys codes)))"
  using assms
proof (induction n)
  case 0
  then show ?case by simp
next
  case (Suc n)
  obtain keys' codes' j found where
    f: "fold (state_erase_key_body kc) [0..<n] (keys, codes, 0, False) = (keys', codes', j, found)"
    by (metis prod_cases4)
  from Suc f have ih: "length keys' = length keys" "length codes' = length codes" "j \<le> n"
    "take j (zip keys' codes') = filter (\<lambda>p. snd p \<noteq> kc) (take n (zip keys codes))"
    "\<And>k. n \<le> k \<Longrightarrow> keys' ! k = keys ! k \<and> codes' ! k = codes ! k"
    "found = (kc \<in> snd ` set (take n (zip keys codes)))"
    by auto
  have n: "n < length keys" "n < length codes" using Suc.prems by auto
  have tk: "take (Suc n) (zip keys codes) = take n (zip keys codes) @ [(keys ! n, codes ! n)]"
    using n by (simp add: take_Suc_conv_app_nth)
  have jl: "j < length (zip keys' codes')" using ih n by simp
  define keys2 where "keys2 = (if n > j then keys'[j := keys' ! n] else keys')"
  define codes2 where "codes2 = (if n > j then codes'[j := codes' ! n] else codes')"
  have len2: "length keys2 = length keys" "length codes2 = length codes"
    using ih by (simp_all add: keys2_def codes2_def)
  have z2: "zip keys2 codes2 = (zip keys' codes')[j := (keys ! n, codes ! n)]"
  proof (cases "j < n")
    case True
    then show ?thesis using ih(5)[of n] by (simp add: keys2_def codes2_def zip_update)
  next
    case False
    with ih have "j = n" by simp
    moreover have "(zip keys' codes')[n := (keys' ! n, codes' ! n)] = zip keys' codes'"
      using jl \<open>j = n\<close> by (subst list_update_same_conv) simp_all
    ultimately show ?thesis using ih(5)[of n]
      by (simp add: keys2_def codes2_def)
  qed
  have tj: "take j (zip keys2 codes2) = take j (zip keys' codes')"
    by (simp only: z2 take_update_cancel order_refl)
  have tsj: "take (Suc j) (zip keys2 codes2) = take j (zip keys' codes') @ [(keys ! n, codes ! n)]"
    using jl by (simp only: z2 take_Suc_conv_app_nth length_list_update nth_list_update_eq
        take_update_cancel order_refl)
  have rest: "\<And>k. Suc n \<le> k \<Longrightarrow> keys2 ! k = keys ! k \<and> codes2 ! k = codes ! k"
    using ih(3,5) by (auto simp: keys2_def codes2_def)
  have cn: "codes2 ! n = codes ! n"
    using ih(3) ih(5)[of n] by (auto simp: codes2_def nth_list_update)
  have step: "fold (state_erase_key_body kc) [0..<Suc n] (keys, codes, 0, False) =
      (if codes ! n \<noteq> kc then (keys2, codes2, Suc j, found) else (keys2, codes2, j, True))"
    using cn by (simp add: f keys2_def codes2_def Let_def)
  show ?case
  proof (cases "codes ! n = kc")
    case True
    then show ?thesis
      using step len2 ih(3,4,6) tj rest tk by (auto simp: image_iff)
  next
    case False
    then show ?thesis
      using step len2 ih(3,4,6) tsj rest tk by (auto simp: image_iff)
  qed
qed


lemma clear_props:
  "npressed (state_erase_key_clear j s) = min j (npressed s) \<and>
   length (pressed_keys (state_erase_key_clear j s)) = length (pressed_keys s) \<and>
   length (pressed_keycodes (state_erase_key_clear j s)) = length (pressed_keycodes s) \<and>
   take j (zip (pressed_keys (state_erase_key_clear j s))
               (pressed_keycodes (state_erase_key_clear j s))) =
     take j (zip (pressed_keys s) (pressed_keycodes s)) \<and>
   last_keycode (state_erase_key_clear j s) = last_keycode s \<and>
   last_raw_modifiers (state_erase_key_clear j s) = last_raw_modifiers s \<and>
   current_key (state_erase_key_clear j s) = current_key s"
proof (induction j s rule: state_erase_key_clear.induct)
  case (1 j s)
  show ?case
  proof (cases "npressed s > j")
    case True
    then have "j \<le> npressed s - 1" by simp
    with True 1 show ?thesis
      by (subst (1 2 3 4 5 6 7 8) state_erase_key_clear.simps)
         (simp add: Let_def zip_update take_update_cancel min_def)
  next
    case False
    then show ?thesis
      by (subst (1 2 3 4 5 6 7 8) state_erase_key_clear.simps) (simp add: min_def)
  qed
qed

lemma state_erase_key_props:
  assumes "state_wf hc s"
  shows "pressed (snd (state_erase_key s kc)) = filter (\<lambda>p. snd p \<noteq> kc) (pressed s)"
    and "fst (state_erase_key s kc) = (kc \<in> snd ` set (pressed s))"
    and "current_key (snd (state_erase_key s kc)) = 0"
    and "state_wf hc (snd (state_erase_key s kc))"
    and "last_keycode (snd (state_erase_key s kc)) = last_keycode s"
    and "last_raw_modifiers (snd (state_erase_key s kc)) = last_raw_modifiers s"
proof -
  obtain keys codes j found where
    f: "fold (state_erase_key_body kc) [0..<npressed s]
          (pressed_keys s, pressed_keycodes s, 0, False) = (keys, codes, j, found)"
    by (metis prod_cases4)
  have a: "npressed s \<le> length (pressed_keys s)"
    "length (pressed_keycodes s) = length (pressed_keys s)"
    using assms by (simp_all add: state_wf_def)
  from erase_fold_inv[OF a, of kc] f
  have inv: "length keys = length (pressed_keys s)" "length codes = length (pressed_keycodes s)"
    "j \<le> npressed s"
    "take j (zip keys codes) = filter (\<lambda>p. snd p \<noteq> kc) (pressed s)"
    "found = (kc \<in> snd ` set (pressed s))"
    by (simp_all add: pressed_def)
  let ?s1 = "s\<lparr>pressed_keys := keys, pressed_keycodes := codes\<rparr>"
  have e: "state_erase_key s kc = (found, (state_erase_key_clear j ?s1)\<lparr>current_key := 0\<rparr>)"
    by (simp add: state_erase_key_def f)
  note c = clear_props[of j ?s1]
  show "pressed (snd (state_erase_key s kc)) = filter (\<lambda>p. snd p \<noteq> kc) (pressed s)"
    using c inv by (simp add: e pressed_def min_def)
  show "fst (state_erase_key s kc) = (kc \<in> snd ` set (pressed s))"
    using inv by (simp add: e)
  show "current_key (snd (state_erase_key s kc)) = 0" by (simp add: e)
  show "state_wf hc (snd (state_erase_key s kc))"
    using c inv assms by (simp add: e state_wf_def min_def)
  show "last_keycode (snd (state_erase_key s kc)) = last_keycode s"
    using c by (simp add: e)
  show "last_raw_modifiers (snd (state_erase_key s kc)) = last_raw_modifiers s"
    using c by (simp add: e)
qed

lemma find_takeWhile:
  "i \<le> n \<Longrightarrow> n \<le> length keys \<Longrightarrow>
   state_add_key_find keys n key_id i =
     i + length (takeWhile (\<lambda>k. k < key_id) (drop i (take n keys)))"
proof (induction keys n key_id i rule: state_add_key_find.induct)
  case (1 keys n key_id i)
  show ?case
  proof (cases "i < n")
    case True
    then have d: "drop i (take n keys) = keys ! i # drop (Suc i) (take n keys)"
      using 1(3) by (simp add: Cons_nth_drop_Suc[symmetric])
    show ?thesis
    proof (cases "keys ! i < key_id")
      case t: True
      with True 1 d show ?thesis
        by (subst state_add_key_find.simps) simp
    next
      case False
      with True d show ?thesis
        by (subst state_add_key_find.simps) simp
    qed
  next
    case False
    with 1(2) have "i = n" by simp
    then show ?thesis
      by (subst state_add_key_find.simps) simp
  qed
qed

lemma shift_nth:
  "i \<le> j \<Longrightarrow> j < length keys \<Longrightarrow> j < length codes \<Longrightarrow>
   state_add_key_shift i j (keys, codes) = (keys', codes') \<Longrightarrow>
   length keys' = length keys \<and> length codes' = length codes \<and>
   (\<forall>k. keys' ! k = (if i < k \<and> k \<le> j then keys ! (k - 1) else keys ! k)) \<and>
   (\<forall>k. codes' ! k = (if i < k \<and> k \<le> j then codes ! (k - 1) else codes ! k))"
proof (induction i j "(keys, codes)" arbitrary: keys codes rule: state_add_key_shift.induct)
  case (1 i j keys codes)
  show ?case
  proof (cases "j > i")
    case True
    let ?k1 = "keys[j := keys ! (j - 1)]" and ?c1 = "codes[j := codes ! (j - 1)]"
    have r: "state_add_key_shift i (j - 1) (?k1, ?c1) = (keys', codes')"
      using 1(5) True by (subst (asm) state_add_key_shift.simps) simp
    have "length keys' = length ?k1 \<and> length codes' = length ?c1 \<and>
       (\<forall>k. keys' ! k = (if i < k \<and> k \<le> j - 1 then ?k1 ! (k - 1) else ?k1 ! k)) \<and>
       (\<forall>k. codes' ! k = (if i < k \<and> k \<le> j - 1 then ?c1 ! (k - 1) else ?c1 ! k))"
      using 1(1)[OF True _ _ _ r] True 1(2,3,4) by simp
    then show ?thesis using True 1(3,4)
      by (auto simp: nth_list_update)
  next
    case False
    with 1 show ?thesis
      by (subst (asm) (2) state_add_key_shift.simps) auto
  qed
qed


lemma insort_key_takeWhile:
  "insort_key f x xs =
     takeWhile (\<lambda>y. f y < f x) xs @ x # dropWhile (\<lambda>y. f y < f x) xs"
  by (induction xs) auto

lemma takeWhile_fst_zip:
  "length (takeWhile (\<lambda>p. fst p < (v::u32)) (take n (zip keys codes))) =
   length (takeWhile (\<lambda>k. k < v) (take n keys))" if "length codes = length keys"
  using that
proof (induction keys arbitrary: n codes)
  case Nil
  then show ?case by simp
next
  case (Cons k keys)
  then obtain c codes' where c: "codes = c # codes'" by (cases codes) auto
  show ?case using Cons c by (cases n) auto
qed

lemma state_add_key_props:
  assumes wf: "state_wf hc s" and room: "npressed s < SWAY_KEYBOARD_PRESSED_KEYS_CAP hc"
  shows "pressed (state_add_key hc s kc key_id) = insort_key fst (key_id, kc) (pressed s)"
    and "state_wf hc (state_add_key hc s kc key_id)"
    and "npressed (state_add_key hc s kc key_id) = Suc (npressed s)"
proof -
  let ?n = "npressed s" and ?K = "pressed_keys s" and ?C = "pressed_keycodes s"
  let ?P = "pressed s"
  define i where "i = state_add_key_find ?K ?n key_id 0"
  obtain keys codes where sh: "state_add_key_shift i ?n (?K, ?C) = (keys, codes)"
    by (cases "state_add_key_shift i ?n (?K, ?C)") auto
  have len: "length ?K = SWAY_KEYBOARD_PRESSED_KEYS_CAP hc"
    "length ?C = SWAY_KEYBOARD_PRESSED_KEYS_CAP hc"
    using wf by (simp_all add: state_wf_def)
  have i_eq: "i = length (takeWhile (\<lambda>p. fst p < key_id) ?P)"
    using find_takeWhile[of 0 ?n ?K key_id] len room
      takeWhile_fst_zip[of ?C ?K key_id ?n]
    by (simp add: i_def pressed_def)
  have lenP: "length ?P = ?n" using len room by (simp add: pressed_def)
  have i_le: "i \<le> ?n"
    using length_takeWhile_le[of "\<lambda>p. fst p < key_id" ?P] lenP by (simp add: i_eq)
  from shift_nth[OF i_le _ _ sh] len room
  have sn: "length keys = length ?K" "length codes = length ?C"
    "\<And>k. keys ! k = (if i < k \<and> k \<le> ?n then ?K ! (k - 1) else ?K ! k)"
    "\<And>k. codes ! k = (if i < k \<and> k \<le> ?n then ?C ! (k - 1) else ?C ! k)"
    by simp_all
  have e: "state_add_key hc s kc key_id =
      s\<lparr>pressed_keys := keys[i := key_id], pressed_keycodes := codes[i := kc],
        npressed := ?n + 1, current_key := key_id\<rparr>"
    using room by (simp add: state_add_key_def i_def[symmetric] sh Let_def)
  show "state_wf hc (state_add_key hc s kc key_id)"
    using sn len room by (simp add: e state_wf_def)
  show "npressed (state_add_key hc s kc key_id) = Suc (npressed s)"
    by (simp add: e)
  have tw: "takeWhile (\<lambda>p. fst p < key_id) ?P = take i ?P"
    unfolding i_eq by (rule takeWhile_eq_take)
  have dw: "dropWhile (\<lambda>p. fst p < key_id) ?P = drop i ?P"
    unfolding i_eq by (rule dropWhile_eq_drop)
  have "take (Suc ?n) (zip (keys[i := key_id]) (codes[i := kc])) =
        take i ?P @ (key_id, kc) # drop i ?P"
  proof (rule nth_equalityI)
    show "length (take (Suc ?n) (zip (keys[i := key_id]) (codes[i := kc]))) =
          length (take i ?P @ (key_id, kc) # drop i ?P)"
      using sn len room lenP i_le by simp
  next
    fix k assume "k < length (take (Suc ?n) (zip (keys[i := key_id]) (codes[i := kc])))"
    then have k: "k \<le> ?n" using sn len room by simp
    have kl: "k < length keys" "k < length codes" using k sn len room by simp_all
    consider "k < i" | "k = i" | "i < k" by linarith
    then show "take (Suc ?n) (zip (keys[i := key_id]) (codes[i := kc])) ! k =
          (take i ?P @ (key_id, kc) # drop i ?P) ! k"
    proof cases
      case 1
      then show ?thesis using k kl sn(3,4) lenP i_le len room
        by (simp add: nth_append pressed_def)
    next
      case 2
      then show ?thesis using k kl lenP i_le
        by (simp add: nth_append)
    next
      case 3
      then obtain m where m: "k = Suc (i + m)" using less_iff_Suc_add by auto
      then show ?thesis using k kl sn(3,4) lenP i_le len room 3
        by (simp add: nth_append pressed_def)
    qed
  qed
  then show "pressed (state_add_key hc s kc key_id) = insort_key fst (key_id, kc) (pressed s)"
    by (simp add: e insort_key_takeWhile tw dw) (simp add: pressed_def)
qed

lemma state_add_key_full:
  "npressed s \<ge> SWAY_KEYBOARD_PRESSED_KEYS_CAP hc \<Longrightarrow> state_add_key hc s kc key_id = s"
  by (simp add: state_add_key_def)

section \<open>Shortcut state tracker\<close>

text \<open>
  C8. For every shortcut state and keycode, \<^verbatim>\<open>state_erase_key\<close> removes exactly the
  pressed entries whose origin keycode is the given one and keeps the others in their
  order, returns true if and only if at least one entry was removed (the pressed sequence
  became shorter), and leaves \<open>current_key\<close> at 0 whether or not anything was removed.
\<close>

theorem state_erase_key_removes_keycode:
  assumes "state_wf hc s"
  shows "pressed (snd (state_erase_key s keycode)) = filter (\<lambda>p. snd p \<noteq> keycode) (pressed s) \<and>
         fst (state_erase_key s keycode) =
           (length (pressed (snd (state_erase_key s keycode))) < length (pressed s)) \<and>
         current_key (snd (state_erase_key s keycode)) = 0"
proof -
  note e = state_erase_key_props[OF assms, of keycode]
  have "(keycode \<in> snd ` set (pressed s)) =
        (length (filter (\<lambda>p. snd p \<noteq> keycode) (pressed s)) < length (pressed s))"
  proof
    assume "keycode \<in> snd ` set (pressed s)"
    then obtain p where "p \<in> set (pressed s)" "\<not> snd p \<noteq> keycode" by auto
    then show "length (filter (\<lambda>p. snd p \<noteq> keycode) (pressed s)) < length (pressed s)"
      by (rule length_filter_less)
  next
    assume "length (filter (\<lambda>p. snd p \<noteq> keycode) (pressed s)) < length (pressed s)"
    then have "filter (\<lambda>p. snd p \<noteq> keycode) (pressed s) \<noteq> pressed s" by auto
    then show "keycode \<in> snd ` set (pressed s)"
      by (auto simp: filter_id_conv)
  qed
  with e show ?thesis by simp
qed

theorem state_erase_key_removes_keycode_witness:
  "state_wf sway_constants example_state \<and>
   pressed example_state = [(38, 30), (39, 31), (97, 30)] \<and>
   pressed (snd (state_erase_key example_state 30)) = [(39, 31)] \<and>
   fst (state_erase_key example_state 30) \<and>
   current_key example_state = 97 \<and>
   current_key (snd (state_erase_key example_state 30)) = 0"
proof -
  have wf: "state_wf sway_constants example_state" by code_simp
  have p: "pressed example_state = [(38, 30), (39, 31), (97, 30)]" by code_simp
  have c: "current_key example_state = 97" by code_simp
  from state_erase_key_removes_keycode[OF wf, of 30] show ?thesis
    by (simp add: wf p c)
qed

lemma state_wf_zero: "state_wf hc (shortcut_state_zero hc)"
  by (simp add: state_wf_def shortcut_state_zero_def)

lemma pressed_zero: "pressed (shortcut_state_zero hc) = []"
  by (simp add: pressed_def shortcut_state_zero_def)

lemma length_pressed: "state_wf hc s \<Longrightarrow> length (pressed s) = npressed s"
  by (simp add: pressed_def state_wf_def)

lemma pressed_state_add_key:
  assumes "state_wf hc s"
  shows "pressed (state_add_key hc s keycode key_id) =
     (if npressed s < SWAY_KEYBOARD_PRESSED_KEYS_CAP hc
      then insort_key fst (key_id, keycode) (pressed s) else pressed s)"
  using state_add_key_props(1)[OF assms] state_add_key_full[of hc s]
  by (cases "npressed s < SWAY_KEYBOARD_PRESSED_KEYS_CAP hc") simp_all

lemma state_wf_state_add_key:
  "state_wf hc s \<Longrightarrow> state_wf hc (state_add_key hc s keycode key_id)"
  using state_add_key_props(2)[of hc s] state_add_key_full[of hc s]
  by (cases "npressed s < SWAY_KEYBOARD_PRESSED_KEYS_CAP hc") simp_all

lemma state_add_key_fields:
  "last_keycode (state_add_key hc s keycode key_id) = last_keycode s"
  "last_raw_modifiers (state_add_key hc s keycode key_id) = last_raw_modifiers s"
  by (simp_all add: state_add_key_def Let_def split: prod.splits)

text \<open>The state in the middle of \<open>update_shortcut_state\<close>, after the previous key was dropped.\<close>

lemma update_shortcut_state_unfold:
  "update_shortcut_state hc s event new_key raw_modifiers =
     (let s1 = s\<lparr>last_raw_modifiers := raw_modifiers\<rparr>;
          s2 = (if raw_modifiers \<noteq> last_raw_modifiers s \<and> last_keycode s \<noteq> 0
                then snd (state_erase_key s1 (last_keycode s)) else s1)
      in if e_state event = WLR_KEY_PRESSED then
           (False, (state_add_key hc s2 (e_keycode event) new_key)\<lparr>last_keycode := e_keycode event\<rparr>)
         else state_erase_key s2 (e_keycode event))"
  by (simp add: update_shortcut_state_def Let_def)

lemma update_shortcut_state_props:
  fixes s :: sway_shortcut_state and raw_modifiers new_key :: u32
    and event :: wlr_event_keyboard_key
  assumes wf: "state_wf hc s"
  defines "mid \<equiv> (if raw_modifiers \<noteq> last_raw_modifiers s \<and> last_keycode s \<noteq> 0
                  then filter (\<lambda>p. snd p \<noteq> last_keycode s) (pressed s) else pressed s)"
  defines "r \<equiv> update_shortcut_state hc s event new_key raw_modifiers"
  shows "state_wf hc (snd r)"
    and "last_raw_modifiers (snd r) = raw_modifiers"
    and "e_state event = WLR_KEY_PRESSED \<Longrightarrow>
           \<not> fst r \<and> last_keycode (snd r) = e_keycode event \<and>
           pressed (snd r) =
             (if length mid < SWAY_KEYBOARD_PRESSED_KEYS_CAP hc
              then insort_key fst (new_key, e_keycode event) mid else mid)"
    and "e_state event = WLR_KEY_RELEASED \<Longrightarrow>
           fst r = (e_keycode event \<in> snd ` set mid) \<and> last_keycode (snd r) = last_keycode s \<and>
           pressed (snd r) = filter (\<lambda>p. snd p \<noteq> e_keycode event) mid"
proof -
  let ?s1 = "s\<lparr>last_raw_modifiers := raw_modifiers\<rparr>"
  define s2 where "s2 = (if raw_modifiers \<noteq> last_raw_modifiers s \<and> last_keycode s \<noteq> 0
                then snd (state_erase_key ?s1 (last_keycode s)) else ?s1)"
  have wf1: "state_wf hc ?s1" using wf by (simp add: state_wf_def)
  have p1: "pressed ?s1 = pressed s" by (simp add: pressed_def)
  have wf2: "state_wf hc s2"
    using state_erase_key_props(4)[OF wf1] wf1 by (simp add: s2_def)
  have p2: "pressed s2 = mid"
    using state_erase_key_props(1)[OF wf1] p1 by (simp add: s2_def mid_def)
  have l2: "last_keycode s2 = last_keycode s" "last_raw_modifiers s2 = raw_modifiers"
    using state_erase_key_props(5,6)[OF wf1] by (simp_all add: s2_def)
  have r: "r = (if e_state event = WLR_KEY_PRESSED then
           (False, (state_add_key hc s2 (e_keycode event) new_key)\<lparr>last_keycode := e_keycode event\<rparr>)
         else state_erase_key s2 (e_keycode event))"
    by (simp add: r_def update_shortcut_state_unfold s2_def Let_def)
  have pl: "\<And>t k. pressed (t\<lparr>last_keycode := k\<rparr>) = pressed t" by (simp add: pressed_def)
  have wl: "\<And>t k. state_wf hc (t\<lparr>last_keycode := k\<rparr>) = state_wf hc t" by (simp add: state_wf_def)
  show "state_wf hc (snd r)"
    using state_wf_state_add_key[OF wf2] state_erase_key_props(4)[OF wf2]
    by (simp add: r wl)
  show "last_raw_modifiers (snd r) = raw_modifiers"
    using state_erase_key_props(6)[OF wf2] l2 by (simp add: r state_add_key_fields)
  show "e_state event = WLR_KEY_PRESSED \<Longrightarrow>
           \<not> fst r \<and> last_keycode (snd r) = e_keycode event \<and>
           pressed (snd r) =
             (if length mid < SWAY_KEYBOARD_PRESSED_KEYS_CAP hc
              then insort_key fst (new_key, e_keycode event) mid else mid)"
    using pressed_state_add_key[OF wf2] length_pressed[OF wf2] p2
    by (simp add: r pl)
  show "e_state event = WLR_KEY_RELEASED \<Longrightarrow>
           fst r = (e_keycode event \<in> snd ` set mid) \<and> last_keycode (snd r) = last_keycode s \<and>
           pressed (snd r) = filter (\<lambda>p. snd p \<noteq> e_keycode event) mid"
    using state_erase_key_props(1,2,5)[OF wf2] p2 l2
    by (simp add: r)
qed

lemma state_wf_apply_state_op:
  "state_wf hc s \<Longrightarrow> state_wf hc (apply_state_op hc op s)"
  by (cases op)
     (simp_all add: state_wf_state_add_key state_erase_key_props(4) update_shortcut_state_props(1))

lemma sorted_apply_state_op:
  assumes "state_wf hc s" "sorted (map fst (pressed s))"
  shows "sorted (map fst (pressed (apply_state_op hc op s)))"
proof (cases op)
  case (Add keycode key_id)
  then show ?thesis using assms
    by (simp add: pressed_state_add_key sorted_insort_key)
next
  case (Erase keycode)
  then show ?thesis using assms
    by (simp add: state_erase_key_props(1) sorted_filter)
next
  case (Update event new_key raw_modifiers)
  show ?thesis
  proof (cases "e_state event")
    case WLR_KEY_RELEASED
    then show ?thesis using assms Update update_shortcut_state_props(4)[OF assms(1), of event]
      by (simp add: sorted_filter)
  next
    case WLR_KEY_PRESSED
    then show ?thesis using assms Update update_shortcut_state_props(3)[OF assms(1), of event]
      by (simp add: sorted_filter sorted_insort_key)
  qed
qed

lemma fold_apply_state_op_inv:
  "state_wf hc s \<Longrightarrow> sorted (map fst (pressed s)) \<Longrightarrow>
   state_wf hc (fold (apply_state_op hc) ops s) \<and>
   sorted (map fst (pressed (fold (apply_state_op hc) ops s)))"
  by (induction ops arbitrary: s) (simp_all add: state_wf_apply_state_op sorted_apply_state_op)

text \<open>
  C2. After every sequence of operations on the empty shortcut state, the pressed
  sequence is sorted ascending by identifier and its size is at most
  \<^verbatim>\<open>SWAY_KEYBOARD_PRESSED_KEYS_CAP\<close>; when the state is at capacity,
  \<^verbatim>\<open>state_add_key\<close> returns the state unchanged.
\<close>

theorem add_erase_sorted_bounded:
  "sorted (map fst (pressed (fold (apply_state_op hc) ops (shortcut_state_zero hc)))) \<and>
   length (pressed (fold (apply_state_op hc) ops (shortcut_state_zero hc))) =
     npressed (fold (apply_state_op hc) ops (shortcut_state_zero hc)) \<and>
   npressed (fold (apply_state_op hc) ops (shortcut_state_zero hc)) \<le>
     SWAY_KEYBOARD_PRESSED_KEYS_CAP hc \<and>
   (npressed (fold (apply_state_op hc) ops (shortcut_state_zero hc)) =
      SWAY_KEYBOARD_PRESSED_KEYS_CAP hc \<longrightarrow>
    state_add_key hc (fold (apply_state_op hc) ops (shortcut_state_zero hc)) keycode key_id =
      fold (apply_state_op hc) ops (shortcut_state_zero hc))"
proof -
  let ?s = "fold (apply_state_op hc) ops (shortcut_state_zero hc)"
  have "state_wf hc ?s \<and> sorted (map fst (pressed ?s))"
    by (rule fold_apply_state_op_inv) (simp_all add: state_wf_zero pressed_zero)
  then have wf: "state_wf hc ?s" and so: "sorted (map fst (pressed ?s))" by simp_all
  have "npressed ?s \<le> SWAY_KEYBOARD_PRESSED_KEYS_CAP hc"
    using wf by (simp add: state_wf_def)
  then show ?thesis
    using so length_pressed[OF wf] by (simp add: state_add_key_full)
qed

theorem add_erase_sorted_bounded_witness:
  "npressed (fold (apply_state_op sway_constants) full_ops (shortcut_state_zero sway_constants)) =
     SWAY_KEYBOARD_PRESSED_KEYS_CAP sway_constants \<and>
   state_add_key sway_constants
     (fold (apply_state_op sway_constants) full_ops (shortcut_state_zero sway_constants)) 99 107 =
     fold (apply_state_op sway_constants) full_ops (shortcut_state_zero sway_constants) \<and>
   sorted (map fst (pressed
     (fold (apply_state_op sway_constants) full_ops (shortcut_state_zero sway_constants))))"
proof -
  have n: "npressed (fold (apply_state_op sway_constants) full_ops
             (shortcut_state_zero sway_constants)) = SWAY_KEYBOARD_PRESSED_KEYS_CAP sway_constants"
    by code_simp
  from add_erase_sorted_bounded[of sway_constants full_ops 99 107] n show ?thesis
    by simp
qed

lemma distinct_map_insort_key:
  "distinct (map f (insort_key f x xs)) \<longleftrightarrow> f x \<notin> f ` set xs \<and> distinct (map f xs)"
  by (induction xs) (auto simp: set_insort_key)

lemma filter_key_insort_key:
  "filter (\<lambda>p. f p = f x) (insort_key f x xs) = x # filter (\<lambda>p. f p = f x) xs"
  by (induction xs) auto

lemma distinct_apply_state_op:
  assumes wf: "state_wf hc s" and d: "distinct (map fst (pressed s))"
    and fresh: "case added_key op of None \<Rightarrow> True | Some k \<Rightarrow> k \<notin> set (map fst (pressed s))"
  shows "distinct (map fst (pressed (apply_state_op hc op s)))"
proof (cases op)
  case (Add keycode key_id)
  then show ?thesis using wf d fresh
    by (simp add: pressed_state_add_key distinct_map_insort_key)
next
  case (Erase keycode)
  then show ?thesis using wf d
    by (simp add: state_erase_key_props(1) distinct_map_filter)
next
  case (Update event new_key raw_modifiers)
  show ?thesis
  proof (cases "e_state event")
    case WLR_KEY_RELEASED
    then show ?thesis using d Update update_shortcut_state_props(4)[OF wf, of event]
      by (simp add: distinct_map_filter)
  next
    case WLR_KEY_PRESSED
    then show ?thesis using d fresh Update update_shortcut_state_props(3)[OF wf, of event]
      by (auto simp: distinct_map_filter distinct_map_insort_key)
  qed
qed

lemma distinct_fold_apply_state_op:
  "state_wf hc s \<Longrightarrow> distinct (map fst (pressed s)) \<Longrightarrow> fresh_ops hc ops s \<Longrightarrow>
   distinct (map fst (pressed (fold (apply_state_op hc) ops s)))"
proof (induction ops arbitrary: s)
  case Nil
  then show ?case by simp
next
  case (Cons op ops)
  then show ?case
    using distinct_apply_state_op[of hc s op] state_wf_apply_state_op[of hc s op]
    by simp
qed

text \<open>
  C1, as stated, fails: \<^verbatim>\<open>state_add_key\<close> does not look for the identifier before it
  inserts (the source: "there may be duplicates"). Two keys that produce the same keysym,
  pressed one after the other, leave that identifier twice in the pressed sequence.
\<close>

theorem duplicate_identifier_counterexample:
  "\<not> distinct (map fst (pressed
      (fold (apply_state_op sway_constants) same_keysym_ops (shortcut_state_zero sway_constants))))"
  by code_simp

text \<open>
  C1, amended. The identifiers of the pressed sequence are distinct after every sequence
  of add, erase and update operations on the empty state in which each inserted identifier
  is not pressed at that moment; and below capacity \<^verbatim>\<open>state_add_key\<close> always adds one
  entry for its identifier, whether or not that identifier is already there.
\<close>

theorem fresh_adds_keep_identifiers_distinct:
  "(fresh_ops hc ops (shortcut_state_zero hc) \<longrightarrow>
      distinct (map fst (pressed (fold (apply_state_op hc) ops (shortcut_state_zero hc))))) \<and>
   (state_wf hc s \<and> npressed s < SWAY_KEYBOARD_PRESSED_KEYS_CAP hc \<longrightarrow>
      length (filter (\<lambda>p. fst p = key_id) (pressed (state_add_key hc s keycode key_id))) =
        Suc (length (filter (\<lambda>p. fst p = key_id) (pressed s))))"
proof (intro conjI impI)
  assume "fresh_ops hc ops (shortcut_state_zero hc)"
  then show "distinct (map fst (pressed (fold (apply_state_op hc) ops (shortcut_state_zero hc))))"
    by (intro distinct_fold_apply_state_op) (simp_all add: state_wf_zero pressed_zero)
next
  assume a: "state_wf hc s \<and> npressed s < SWAY_KEYBOARD_PRESSED_KEYS_CAP hc"
  have "filter (\<lambda>p. fst p = key_id) (insort_key fst (key_id, keycode) (pressed s)) =
        (key_id, keycode) # filter (\<lambda>p. fst p = key_id) (pressed s)"
    using filter_key_insort_key[of fst "(key_id, keycode)" "pressed s"] by simp
  with a show "length (filter (\<lambda>p. fst p = key_id) (pressed (state_add_key hc s keycode key_id))) =
        Suc (length (filter (\<lambda>p. fst p = key_id) (pressed s)))"
    by (simp add: pressed_state_add_key)
qed


theorem fresh_adds_keep_identifiers_distinct_witness:
  "fresh_ops sway_constants distinct_ops (shortcut_state_zero sway_constants) \<and>
   distinct (map fst (pressed
     (fold (apply_state_op sway_constants) distinct_ops (shortcut_state_zero sway_constants)))) \<and>
   state_wf sway_constants example_state \<and>
   npressed example_state < SWAY_KEYBOARD_PRESSED_KEYS_CAP sway_constants \<and>
   length (filter (\<lambda>p. fst p = 97) (pressed example_state)) = 1 \<and>
   length (filter (\<lambda>p. fst p = 97)
     (pressed (state_add_key sway_constants example_state 32 97))) = 2"
proof -
  have f: "fresh_ops sway_constants distinct_ops (shortcut_state_zero sway_constants)"
    by code_simp
  have wf: "state_wf sway_constants example_state" by code_simp
  have n: "npressed example_state < SWAY_KEYBOARD_PRESSED_KEYS_CAP sway_constants"
    by code_simp
  have c: "length (filter (\<lambda>p. fst p = 97) (pressed example_state)) = 1" by code_simp
  from fresh_adds_keep_identifiers_distinct
         [of sway_constants distinct_ops example_state 97 32] f wf n c
  show ?thesis by simp
qed

text \<open>
  C7. \<^verbatim>\<open>update_shortcut_state\<close> records the raw modifier mask; if the mask differs from
  the one recorded before and \<open>last_keycode\<close> is not 0, the entries of that keycode are
  erased first (\<open>mid\<close> is the pressed sequence after that). Then a press inserts the new
  identifier under the event's keycode (when there is room) and records the keycode as
  \<open>last_keycode\<close>; a release erases the entries of the event's keycode and returns
  whether there was one.
\<close>

theorem update_shortcut_state_effect:
  assumes "state_wf hc s"
  shows "let mid = (if raw_modifiers \<noteq> last_raw_modifiers s \<and> last_keycode s \<noteq> 0
                    then filter (\<lambda>p. snd p \<noteq> last_keycode s) (pressed s) else pressed s);
             (found, s') = update_shortcut_state hc s event new_key raw_modifiers
         in last_raw_modifiers s' = raw_modifiers \<and>
            (e_state event = WLR_KEY_PRESSED \<longrightarrow>
               \<not> found \<and> last_keycode s' = e_keycode event \<and>
               pressed s' =
                 (if length mid < SWAY_KEYBOARD_PRESSED_KEYS_CAP hc
                  then insort_key fst (new_key, e_keycode event) mid else mid)) \<and>
            (e_state event = WLR_KEY_RELEASED \<longrightarrow>
               found = (e_keycode event \<in> snd ` set mid) \<and>
               last_keycode s' = last_keycode s \<and>
               pressed s' = filter (\<lambda>p. snd p \<noteq> e_keycode event) mid)"
proof -
  note p = update_shortcut_state_props(2,3,4)[OF assms,
      where raw_modifiers = raw_modifiers and event = event and new_key = new_key]
  show ?thesis
    unfolding Let_def case_prod_beta
    by (intro conjI impI) (use p in blast)+
qed

theorem update_shortcut_state_effect_witness:
  "state_wf sway_constants shift_held_state \<and>
   pressed shift_held_state = [(58, 50)] \<and>
   last_keycode shift_held_state = 50 \<and> last_raw_modifiers shift_held_state = 0 \<and>
   pressed (snd (update_shortcut_state sway_constants shift_held_state
      \<lparr>e_time_msec = 1, e_keycode = 38, e_state = WLR_KEY_PRESSED\<rparr> 46 1)) = [(46, 38)] \<and>
   state_wf sway_constants shift_a_state \<and>
   pressed shift_a_state = [(46, 38)] \<and>
   last_keycode shift_a_state = 38 \<and> last_raw_modifiers shift_a_state = 1 \<and>
   update_shortcut_state sway_constants shift_a_state
      \<lparr>e_time_msec = 2, e_keycode = 38, e_state = WLR_KEY_RELEASED\<rparr> 46 1 =
     (True, snd (update_shortcut_state sway_constants shift_a_state
      \<lparr>e_time_msec = 2, e_keycode = 38, e_state = WLR_KEY_RELEASED\<rparr> 46 1)) \<and>
   pressed (snd (update_shortcut_state sway_constants shift_a_state
      \<lparr>e_time_msec = 2, e_keycode = 38, e_state = WLR_KEY_RELEASED\<rparr> 46 1)) = []"
proof -
  have wf1: "state_wf sway_constants shift_held_state" by code_simp
  have p1: "pressed shift_held_state = [(58, 50)]" by code_simp
  have l1: "last_keycode shift_held_state = 50" "last_raw_modifiers shift_held_state = 0"
    by code_simp+
  have wf2: "state_wf sway_constants shift_a_state" by code_simp
  have p2: "pressed shift_a_state = [(46, 38)]" by code_simp
  have l2: "last_keycode shift_a_state = 38" "last_raw_modifiers shift_a_state = 1"
    by code_simp+
  have c: "SWAY_KEYBOARD_PRESSED_KEYS_CAP sway_constants = 32"
    by (simp add: sway_constants_def)
  from update_shortcut_state_effect[OF wf1, of 1
         "\<lparr>e_time_msec = 1, e_keycode = 38, e_state = WLR_KEY_PRESSED\<rparr>" 46]
  have a: "pressed (snd (update_shortcut_state sway_constants shift_held_state
      \<lparr>e_time_msec = 1, e_keycode = 38, e_state = WLR_KEY_PRESSED\<rparr> 46 1)) = [(46, 38)]"
    by (simp add: p1 l1 c Let_def case_prod_beta)
  from update_shortcut_state_effect[OF wf2, of 1
         "\<lparr>e_time_msec = 2, e_keycode = 38, e_state = WLR_KEY_RELEASED\<rparr>" 46]
  have b: "fst (update_shortcut_state sway_constants shift_a_state
      \<lparr>e_time_msec = 2, e_keycode = 38, e_state = WLR_KEY_RELEASED\<rparr> 46 1) \<and>
    pressed (snd (update_shortcut_state sway_constants shift_a_state
      \<lparr>e_time_msec = 2, e_keycode = 38, e_state = WLR_KEY_RELEASED\<rparr> 46 1)) = []"
    by (simp add: p2 l2 c Let_def case_prod_beta)
  from b have b1: "update_shortcut_state sway_constants shift_a_state
      \<lparr>e_time_msec = 2, e_keycode = 38, e_state = WLR_KEY_RELEASED\<rparr> 46 1 =
     (True, snd (update_shortcut_state sway_constants shift_a_state
      \<lparr>e_time_msec = 2, e_keycode = 38, e_state = WLR_KEY_RELEASED\<rparr> 46 1))"
    by (simp add: prod_eq_iff)
  show ?thesis using wf1 p1 l1 wf2 p2 l2 a b b1 by simp
qed

section \<open>Binding resolver\<close>

lemma xor_neq: "((a::u32) XOR b) \<noteq> 0 \<longleftrightarrow> a \<noteq> b"
  by (metis xor.right_neutral xor_self_eq xor.assoc xor.commute)

lemma get_active_binding_single:
  "get_active_binding hc heap state [p] None modifiers release locked input exact_input grp =
     (if \<not> binding_filtered_out hc (heap p) modifiers release locked input exact_input grp \<and>
         binding_match state (heap p)
      then Some p else None)"
  by simp

lemma binding_filtered_out_iff:
  "binding_filtered_out hc binding modifiers release locked input exact_input grp \<longleftrightarrow>
     \<not> (b_modifiers binding = modifiers \<and>
        ((b_flags binding AND BINDING_RELEASE hc) \<noteq> 0) = release \<and>
        locked \<le> ((b_flags binding AND BINDING_LOCKED hc) \<noteq> 0) \<and>
        (b_group binding \<noteq> XKB_LAYOUT_INVALID hc \<longrightarrow> b_group binding = grp) \<and>
        (b_input binding = input \<or> (b_input binding = ''*'' \<and> \<not> exact_input)))"
  unfolding binding_filtered_out_def Let_def xor_neq by auto

lemma binding_match_cases:
  "binding_match state binding \<longleftrightarrow>
     (npressed state = length (b_keys binding) \<and>
      (\<forall>j<npressed state. b_keys binding ! j = pressed_keys state ! j)) \<or>
     (npressed state \<noteq> length (b_keys binding) \<and> length (b_keys binding) = 1 \<and>
      b_keys binding ! 0 = current_key state)"
  by (auto simp: binding_match_def list_all_iff)

lemma get_active_binding_sound:
  "get_active_binding hc heap state bindings current_binding
     modifiers release locked input exact_input grp = Some p \<Longrightarrow>
   current_binding \<noteq> Some p \<Longrightarrow>
   p \<in> set bindings \<and>
   \<not> binding_filtered_out hc (heap p) modifiers release locked input exact_input grp \<and>
   binding_match state (heap p)"
proof (induction bindings arbitrary: current_binding)
  case Nil
  then show ?case by simp
next
  case (Cons q bindings)
  show ?case
  proof (cases "get_active_binding hc heap state (q # bindings) current_binding
      modifiers release locked input exact_input grp =
      get_active_binding hc heap state bindings current_binding
      modifiers release locked input exact_input grp")
    case True
    with Cons show ?thesis by auto
  next
    case False
    then have q: "\<not> binding_filtered_out hc (heap q) modifiers release locked input exact_input grp"
      "binding_match state (heap q)"
      by (auto split: if_splits)
    from False Cons.prems(1) have
      "p = q \<or> get_active_binding hc heap state bindings (Some q)
         modifiers release locked input exact_input grp = Some p"
      by (auto split: if_splits)
    then show ?thesis
    proof
      assume "p = q" with q show ?thesis by simp
    next
      assume r: "get_active_binding hc heap state bindings (Some q)
         modifiers release locked input exact_input grp = Some p"
      show ?thesis
      proof (cases "p = q")
        case True with q show ?thesis by simp
      next
        case False
        with Cons.IH[OF r] show ?thesis by simp
      qed
    qed
  qed
qed

text \<open>
  C4. A binding passes the filtering pass of \<^verbatim>\<open>get_active_binding\<close> if and only if
  its modifier mask equals the query mask, its release flag equals \<open>release\<close>, \<open>locked\<close>
  is at most its lock flag, its layout group, when set, is the current group, and its
  input equals the query input or is \<open>*\<close> while \<open>exact_input\<close> is false. For a binding
  whose keys match, that is when a table holding only this binding yields it; and in any
  table, with any binding chosen before, a newly chosen binding satisfies the five
  conditions.
\<close>

theorem binding_eligible_iff:
  "(binding_match state (heap p) \<longrightarrow>
     (get_active_binding hc heap state [p] None modifiers release locked input exact_input grp
        = Some p \<longleftrightarrow>
      b_modifiers (heap p) = modifiers \<and>
      ((b_flags (heap p) AND BINDING_RELEASE hc) \<noteq> 0) = release \<and>
      locked \<le> ((b_flags (heap p) AND BINDING_LOCKED hc) \<noteq> 0) \<and>
      (b_group (heap p) \<noteq> XKB_LAYOUT_INVALID hc \<longrightarrow> b_group (heap p) = grp) \<and>
      (b_input (heap p) = input \<or> (b_input (heap p) = ''*'' \<and> \<not> exact_input)))) \<and>
   (get_active_binding hc heap state bindings current_binding
      modifiers release locked input exact_input grp = Some p \<and> current_binding \<noteq> Some p \<longrightarrow>
      b_modifiers (heap p) = modifiers \<and>
      ((b_flags (heap p) AND BINDING_RELEASE hc) \<noteq> 0) = release \<and>
      locked \<le> ((b_flags (heap p) AND BINDING_LOCKED hc) \<noteq> 0) \<and>
      (b_group (heap p) \<noteq> XKB_LAYOUT_INVALID hc \<longrightarrow> b_group (heap p) = grp) \<and>
      (b_input (heap p) = input \<or> (b_input (heap p) = ''*'' \<and> \<not> exact_input)))"
proof -
  have 1: "binding_match state (heap p) \<Longrightarrow>
     (get_active_binding hc heap state [p] None modifiers release locked input exact_input grp
        = Some p) =
     (\<not> binding_filtered_out hc (heap p) modifiers release locked input exact_input grp)"
    unfolding get_active_binding_single by simp
  have 2: "get_active_binding hc heap state bindings current_binding
      modifiers release locked input exact_input grp = Some p \<and> current_binding \<noteq> Some p \<Longrightarrow>
     \<not> binding_filtered_out hc (heap p) modifiers release locked input exact_input grp"
    using get_active_binding_sound by blast
  show ?thesis
    using 1[unfolded binding_filtered_out_iff] 2[unfolded binding_filtered_out_iff]
    by blast
qed

theorem binding_eligible_iff_witness:
  "binding_match two_keys_state (example_heap 2) \<and>
   get_active_binding sway_constants example_heap two_keys_state [0, 2] None 64 False False
     ''1:1:AT_Translated_Set_2_keyboard'' False 1 = Some 2 \<and>
   b_group (example_heap 2) \<noteq> XKB_LAYOUT_INVALID sway_constants \<and>
   get_active_binding sway_constants example_heap two_keys_state [2] None 64 False False
     ''1:1:AT_Translated_Set_2_keyboard'' False 1 = Some 2 \<and>
   get_active_binding sway_constants example_heap two_keys_state [2] None 64 False False
     ''1:1:AT_Translated_Set_2_keyboard'' True 1 \<noteq> Some 2 \<and>
   get_active_binding sway_constants example_heap two_keys_state [2] None 65 False False
     ''1:1:AT_Translated_Set_2_keyboard'' False 1 \<noteq> Some 2"
proof -
  have m: "binding_match two_keys_state (example_heap 2)" by code_simp
  have g: "b_group (example_heap 2) \<noteq> XKB_LAYOUT_INVALID sway_constants"
    by (simp add: example_heap_def sway_constants_def)
  have s: "get_active_binding sway_constants example_heap two_keys_state [0, 2] None 64 False
     False ''1:1:AT_Translated_Set_2_keyboard'' False 1 = Some 2"
    by code_simp
  from binding_eligible_iff[of two_keys_state example_heap 2 sway_constants 64 False False
         "''1:1:AT_Translated_Set_2_keyboard''" False 1 "[0, 2]" None]
       binding_eligible_iff[of two_keys_state example_heap 2 sway_constants 64 False False
         "''1:1:AT_Translated_Set_2_keyboard''" True 1 "[0, 2]" None]
       binding_eligible_iff[of two_keys_state example_heap 2 sway_constants 65 False False
         "''1:1:AT_Translated_Set_2_keyboard''" False 1 "[0, 2]" None]
       m g s
  show ?thesis
    by (simp add: example_heap_def sway_constants_def del: get_active_binding.simps)
qed

text \<open>
  C3, as stated, fails: the comparison with \<open>current_key\<close> is the \<^verbatim>\<open>else\<close> branch of
  the size test, so it is not made when the number of pressed keys equals the number of
  required keys. After keys 38 and 39 are pressed and 39 is released, one key is pressed
  and \<open>current_key\<close> is 0; a binding on the single identifier 0 satisfies (b) and is not
  matched.
\<close>

theorem single_key_match_counterexample:
  "\<not> binding_filtered_out sway_constants (example_heap 0) 0 False False
       ''1:1:AT_Translated_Set_2_keyboard'' False 0 \<and>
   pressed one_key_left_state = [(46, 38)] \<and>
   length (b_keys (example_heap 0)) = 1 \<and>
   b_keys (example_heap 0) ! 0 = current_key one_key_left_state \<and>
   get_active_binding sway_constants example_heap one_key_left_state [0] None 0 False False
     ''1:1:AT_Translated_Set_2_keyboard'' False 0 = None"
  by code_simp

text \<open>
  C3, amended. An eligible binding matches if and only if (a) the number of pressed keys
  equals the number of required keys and each required identifier equals the pressed
  identifier at the same position, or (b) the number of pressed keys differs from the
  number of required keys, the binding requires exactly one key, and that key equals
  \<open>current_key\<close>. For an eligible binding that is when a table holding only this binding
  yields it; and in any table a newly chosen binding satisfies (a) or (b).
\<close>

theorem binding_match_iff:
  "(\<not> binding_filtered_out hc (heap p) modifiers release locked input exact_input grp \<longrightarrow>
     (get_active_binding hc heap state [p] None modifiers release locked input exact_input grp
        = Some p \<longleftrightarrow>
      (npressed state = length (b_keys (heap p)) \<and>
       (\<forall>j<npressed state. b_keys (heap p) ! j = pressed_keys state ! j)) \<or>
      (npressed state \<noteq> length (b_keys (heap p)) \<and> length (b_keys (heap p)) = 1 \<and>
       b_keys (heap p) ! 0 = current_key state))) \<and>
   (get_active_binding hc heap state bindings current_binding
      modifiers release locked input exact_input grp = Some p \<and> current_binding \<noteq> Some p \<longrightarrow>
      (npressed state = length (b_keys (heap p)) \<and>
       (\<forall>j<npressed state. b_keys (heap p) ! j = pressed_keys state ! j)) \<or>
      (npressed state \<noteq> length (b_keys (heap p)) \<and> length (b_keys (heap p)) = 1 \<and>
       b_keys (heap p) ! 0 = current_key state))"
proof -
  have 1: "\<not> binding_filtered_out hc (heap p) modifiers release locked input exact_input grp \<Longrightarrow>
     (get_active_binding hc heap state [p] None modifiers release locked input exact_input grp
        = Some p) = binding_match state (heap p)"
    unfolding get_active_binding_single by simp
  have 2: "get_active_binding hc heap state bindings current_binding
      modifiers release locked input exact_input grp = Some p \<and> current_binding \<noteq> Some p \<Longrightarrow>
     binding_match state (heap p)"
    using get_active_binding_sound by blast
  show ?thesis
    using 1[unfolded binding_match_cases] 2[unfolded binding_match_cases]
    by blast
qed

theorem binding_match_iff_witness:
  "\<not> binding_filtered_out sway_constants (example_heap 1) 0 False False
       ''1:1:AT_Translated_Set_2_keyboard'' False 0 \<and>
   npressed two_keys_state = 2 \<and> current_key two_keys_state = 47 \<and>
   b_keys (example_heap 1) = [47] \<and>
   get_active_binding sway_constants example_heap two_keys_state [0, 1] None 0 False False
     ''1:1:AT_Translated_Set_2_keyboard'' False 0 = Some 1 \<and>
   get_active_binding sway_constants example_heap two_keys_state [1] None 0 False False
     ''1:1:AT_Translated_Set_2_keyboard'' False 0 = Some 1"
proof -
  have f: "\<not> binding_filtered_out sway_constants (example_heap 1) 0 False False
       ''1:1:AT_Translated_Set_2_keyboard'' False 0" by code_simp
  have n: "npressed two_keys_state = 2" "current_key two_keys_state = 47" by code_simp+
  have s: "get_active_binding sway_constants example_heap two_keys_state [0, 1] None 0 False False
     ''1:1:AT_Translated_Set_2_keyboard'' False 0 = Some 1"
    by code_simp
  from binding_match_iff[of sway_constants example_heap 1 0 False False
         "''1:1:AT_Translated_Set_2_keyboard''" False 0 two_keys_state "[0, 1]" None] f n s
  show ?thesis
    by (simp add: example_heap_def del: get_active_binding.simps)
qed

section \<open>Event dispatcher\<close>

lemma update_shortcut_states_fields:
  "held_binding (update_shortcut_states hc ctx keyboard event) = held_binding keyboard"
  "repeat_binding (update_shortcut_states hc ctx keyboard event) = repeat_binding keyboard"
  "key_repeat_source (update_shortcut_states hc ctx keyboard event) = key_repeat_source keyboard"
  "state_pressed_sent (update_shortcut_states hc ctx keyboard event) = state_pressed_sent keyboard"
  "effective_layout (update_shortcut_states hc ctx keyboard event) = effective_layout keyboard"
  by (simp_all add: update_shortcut_states_def Let_def)

lemma release_held_binding_fst:
  "fst (release_held_binding keyboard event binding_released) =
     keyboard\<lparr>held_binding :=
       (if binding_released \<noteq> None \<and> e_state event = WLR_KEY_PRESSED then binding_released
        else if binding_released \<noteq> held_binding keyboard then None
        else held_binding keyboard)\<rparr>"
  by (simp add: release_held_binding_def Let_def)

lemma release_held_binding_snd:
  "snd (release_held_binding keyboard event binding_released) =
     ((case held_binding keyboard of
         Some held \<Rightarrow>
           if binding_released \<noteq> Some held \<and> e_state event = WLR_KEY_RELEASED
           then [Seat_execute_command held] else []
       | None \<Rightarrow> []),
      held_binding keyboard \<noteq> None \<and> binding_released \<noteq> held_binding keyboard \<and>
      e_state event = WLR_KEY_RELEASED)"
  by (auto simp: release_held_binding_def Let_def split: option.splits)

lemma active_binding_held:
  "active_binding hc ctx (keyboard\<lparr>held_binding := h\<rparr>) release =
   active_binding hc ctx keyboard release"
  by (simp add: active_binding_def)

lemma setup_key_repeat_fields:
  "held_binding (fst (setup_key_repeat ctx keyboard binding)) = held_binding keyboard"
  "state_pressed_sent (fst (setup_key_repeat ctx keyboard binding)) = state_pressed_sent keyboard"
  by (simp_all add: setup_key_repeat_def sway_keyboard_disarm_key_repeat_def)

lemma setup_key_repeat_acts:
  "snd (setup_key_repeat ctx keyboard binding) =
     (if binding \<noteq> None \<and> repeat_info_delay ctx > 0
      then [Wl_event_source_timer_update (repeat_info_delay ctx)]
      else if repeat_binding keyboard \<noteq> None then [Wl_event_source_timer_update 0] else [])"
  by (simp add: setup_key_repeat_def sway_keyboard_disarm_key_repeat_def)

lemma forward_key_held:
  "held_binding (fst (forward_key hc keyboard event handled)) = held_binding keyboard"
  by (simp add: forward_key_def Let_def split: prod.splits)

text \<open>The parts of \<open>handle_key_event\<close>, named.\<close>

lemma handle_key_event_unfold:
  fixes hc ctx keyboard event
  defines "k1 \<equiv> update_shortcut_states hc ctx keyboard event"
  defines "cand \<equiv> active_binding hc ctx k1 True"
  defines "k2 \<equiv> fst (release_held_binding k1 event cand)"
  defines "acts_held \<equiv> fst (snd (release_held_binding k1 event cand))"
  defines "handled1 \<equiv> snd (snd (release_held_binding k1 event cand))"
  defines "binding \<equiv> (if e_state event = WLR_KEY_PRESSED
                        then active_binding hc ctx k1 False else None)"
  defines "k3 \<equiv> fst (setup_key_repeat ctx k2 binding)"
  defines "acts \<equiv> Seat_idle_notify_activity # acts_held @ snd (setup_key_repeat ctx k2 binding) @
                    (case binding of Some b \<Rightarrow> [Seat_execute_command b] | None \<Rightarrow> [])"
  defines "handled2 \<equiv> (handled1 \<or> binding \<noteq> None)"
  defines "vt1 \<equiv> (if \<not> handled2 \<and> e_state event = WLR_KEY_PRESSED
                   then keyboard_execute_compositor_binding hc ctx
                          (fst (keyboard_keysyms_translated ctx))
                   else (handled2, []))"
  defines "vt2 \<equiv> (if \<not> fst vt1 \<and> e_state event = WLR_KEY_PRESSED
                   then keyboard_execute_compositor_binding hc ctx
                          (fst (keyboard_keysyms_raw ctx))
                   else (fst vt1, []))"
  shows "handle_key_event hc ctx keyboard event =
     (if \<not> handled2 \<and> keyboard_in_group ctx then (k3, acts)
      else (fst (forward_key hc k3 event (fst vt2)),
            acts @ snd vt1 @ snd vt2 @ snd (forward_key hc k3 event (fst vt2)) @
            [Transaction_commit_dirty]))"
  unfolding handle_key_event_def Let_def case_prod_beta
    k1_def cand_def k2_def acts_held_def handled1_def binding_def k3_def acts_def handled2_def
    vt1_def vt2_def release_held_binding_fst active_binding_held
  by simp

lemma execute_iff_handled:
  fixes hc ctx keyboard event
  defines "k1 \<equiv> update_shortcut_states hc ctx keyboard event"
  defines "cand \<equiv> active_binding hc ctx k1 True"
  defines "binding \<equiv> (if e_state event = WLR_KEY_PRESSED
                        then active_binding hc ctx k1 False else None)"
  shows "(\<exists>b. Seat_execute_command b \<in> set (snd (handle_key_event hc ctx keyboard event))) \<longleftrightarrow>
     (held_binding keyboard \<noteq> None \<and> cand \<noteq> held_binding keyboard \<and>
      e_state event = WLR_KEY_RELEASED) \<or> binding \<noteq> None"
proof -
  have vt: "\<And>syms b. Seat_execute_command b \<notin>
      set (snd (keyboard_execute_compositor_binding hc ctx syms))"
    subgoal for syms b by (induction syms) auto
    done
  have fw: "\<And>k h b. Seat_execute_command b \<notin> set (snd (forward_key hc k event h))"
    by (auto simp: forward_key_def Let_def split: prod.splits if_splits)
  show ?thesis
  proof (cases "held_binding keyboard")
    case None
    then show ?thesis
      unfolding handle_key_event_unfold
      by (auto simp: release_held_binding_snd setup_key_repeat_acts update_shortcut_states_fields
          k1_def cand_def binding_def vt fw split: option.splits if_splits)
  next
    case (Some h)
    then show ?thesis
      unfolding handle_key_event_unfold
      by (auto simp: release_held_binding_snd setup_key_repeat_acts update_shortcut_states_fields
          k1_def cand_def binding_def vt fw split: option.splits if_splits)
  qed
qed

text \<open>
  C5, as stated, fails: on a keyboard that belongs to a group, an event for which no
  binding was executed leaves \<^verbatim>\<open>handle_key_event\<close> at the early \<^verbatim>\<open>return\<close>, before
  the forwarding block. A press of key 38 with no bindings is forwarded on a keyboard
  outside a group and is not forwarded on a member of a group.
\<close>

theorem group_member_unhandled_counterexample:
  "keyboard_in_group group_ctx \<and>
   snd (handle_key_event sway_constants group_ctx (sway_keyboard_create sway_constants) (key_press 38))
     = [Seat_idle_notify_activity] \<and>
   snd (handle_key_event sway_constants plain_ctx (sway_keyboard_create sway_constants) (key_press 38))
     = [Seat_idle_notify_activity, Wlr_seat_set_keyboard,
        Wlr_seat_keyboard_notify_key 0 38 WLR_KEY_PRESSED, Transaction_commit_dirty]"
  by code_simp

text \<open>
  C5, amended. For every key event on a keyboard that belongs to a keyboard group, if no
  binding was executed, then the compositor bindings are not attempted, the event is not
  forwarded to the client and the "sent to client" state is left as it was, and the
  processing stops there: besides the idle notification, the only action is the
  disarming of a repeat timer left from before.
\<close>

theorem group_member_unhandled_event:
  "keyboard_in_group ctx \<and>
   (\<forall>b. Seat_execute_command b \<notin> set (snd (handle_key_event hc ctx keyboard event))) \<longrightarrow>
     set (snd (handle_key_event hc ctx keyboard event)) \<subseteq>
       {Seat_idle_notify_activity, Wl_event_source_timer_update 0} \<and>
     state_pressed_sent (fst (handle_key_event hc ctx keyboard event)) =
       state_pressed_sent keyboard"
proof (rule impI)
  assume a: "keyboard_in_group ctx \<and>
   (\<forall>b. Seat_execute_command b \<notin> set (snd (handle_key_event hc ctx keyboard event)))"
  let ?k1 = "update_shortcut_states hc ctx keyboard event"
  let ?cand = "active_binding hc ctx ?k1 True"
  let ?binding = "(if e_state event = WLR_KEY_PRESSED
                        then active_binding hc ctx ?k1 False else None)"
  from a execute_iff_handled[of hc ctx keyboard event]
  have nh: "\<not> (held_binding keyboard \<noteq> None \<and> ?cand \<noteq> held_binding keyboard \<and>
      e_state event = WLR_KEY_RELEASED)" "?binding = None"
    by blast+
  show "set (snd (handle_key_event hc ctx keyboard event)) \<subseteq>
       {Seat_idle_notify_activity, Wl_event_source_timer_update 0} \<and>
     state_pressed_sent (fst (handle_key_event hc ctx keyboard event)) =
       state_pressed_sent keyboard"
    unfolding handle_key_event_unfold using a nh
    by (auto simp: release_held_binding_snd setup_key_repeat_acts setup_key_repeat_fields
        update_shortcut_states_fields release_held_binding_fst split: option.splits if_splits)
qed

theorem group_member_unhandled_event_witness:
  "keyboard_in_group group_ctx \<and>
   snd (handle_key_event sway_constants group_ctx (sway_keyboard_create sway_constants) (key_release 40))
     = [Seat_idle_notify_activity] \<and>
   state_pressed_sent
     (fst (handle_key_event sway_constants group_ctx (sway_keyboard_create sway_constants)
        (key_release 40))) = state_pressed_sent (sway_keyboard_create sway_constants)"
proof -
  have g: "keyboard_in_group group_ctx" by code_simp
  have e: "snd (handle_key_event sway_constants group_ctx (sway_keyboard_create sway_constants)
     (key_release 40)) = [Seat_idle_notify_activity]" by code_simp
  from group_member_unhandled_event[of group_ctx sway_constants
         "sway_keyboard_create sway_constants" "key_release 40"] g e
  show ?thesis by simp
qed

lemma handle_key_event_held_binding:
  "held_binding (fst (handle_key_event hc ctx keyboard event)) =
     held_binding (fst (release_held_binding (update_shortcut_states hc ctx keyboard event) event
        (active_binding hc ctx (update_shortcut_states hc ctx keyboard event) True)))"
  unfolding handle_key_event_unfold
  by (simp add: forward_key_held setup_key_repeat_fields)

lemma compositor_binding_acts:
  "set (snd (keyboard_execute_compositor_binding hc ctx syms)) \<subseteq> range Wlr_session_change_vt"
  by (induction syms) auto

lemma forward_key_acts:
  "set (snd (forward_key hc k event h)) \<subseteq>
     {Wlr_seat_set_keyboard,
      Wlr_seat_keyboard_notify_key (e_time_msec event) (e_keycode event) (e_state event)}"
  by (auto simp: forward_key_def Let_def split: prod.splits if_splits)

lemma executed_commands_append:
  "executed_commands (xs @ ys) = executed_commands xs @ executed_commands ys"
  by (induction xs rule: executed_commands.induct) simp_all

lemma executed_commands_none:
  "(\<forall>b. Seat_execute_command b \<notin> set acts) \<longleftrightarrow> executed_commands acts = []"
  by (induction acts rule: executed_commands.induct) auto

text \<open>
  C10. After \<^verbatim>\<open>handle_key_event\<close>, with \<open>cand\<close> the release candidate of the three
  interpretations: on a press with a candidate, the candidate is the held binding;
  otherwise the held binding is cleared when the candidate differs from it and kept when
  they are equal. The binding held before is executed, first of all commands, exactly when
  it differs from the candidate and the event is a release. The commands executed by the
  call are that one, if any, followed by the binding resolved for the press, if any; so on
  a press the binding held before is not executed for being held, and the only command
  executed is the one of the press binding.
\<close>

theorem held_binding_after_key_event:
  "let cand = active_binding hc ctx (update_shortcut_states hc ctx keyboard event) True;
       press_binding =
         (if e_state event = WLR_KEY_PRESSED
          then active_binding hc ctx (update_shortcut_states hc ctx keyboard event) False
          else None);
       (keyboard', acts) = handle_key_event hc ctx keyboard event;
       acts_held = (case held_binding keyboard of
                      Some held \<Rightarrow>
                        if cand \<noteq> Some held \<and> e_state event = WLR_KEY_RELEASED
                        then [Seat_execute_command held] else []
                    | None \<Rightarrow> [])
   in held_binding keyboard' =
        (if e_state event = WLR_KEY_PRESSED \<and> cand \<noteq> None then cand
         else if cand \<noteq> held_binding keyboard then None
         else held_binding keyboard) \<and>
      (\<exists>rest. acts = Seat_idle_notify_activity # acts_held @ rest \<and>
         (e_state event = WLR_KEY_RELEASED \<longrightarrow> (\<forall>b. Seat_execute_command b \<notin> set rest)) \<and>
         executed_commands rest = (case press_binding of Some b \<Rightarrow> [b] | None \<Rightarrow> [])) \<and>
      executed_commands acts =
        (case held_binding keyboard of
           Some held \<Rightarrow>
             if cand \<noteq> Some held \<and> e_state event = WLR_KEY_RELEASED then [held] else []
         | None \<Rightarrow> []) @
        (case press_binding of Some b \<Rightarrow> [b] | None \<Rightarrow> []) \<and>
      (e_state event = WLR_KEY_PRESSED \<longrightarrow>
         acts_held = [] \<and>
         executed_commands acts = (case press_binding of Some b \<Rightarrow> [b] | None \<Rightarrow> []))"
proof -
  let ?k1 = "update_shortcut_states hc ctx keyboard event"
  let ?cand = "active_binding hc ctx ?k1 True"
  let ?pb = "(if e_state event = WLR_KEY_PRESSED then active_binding hc ctx ?k1 False else None)"
  have h: "held_binding (fst (handle_key_event hc ctx keyboard event)) =
        (if e_state event = WLR_KEY_PRESSED \<and> ?cand \<noteq> None then ?cand
         else if ?cand \<noteq> held_binding keyboard then None
         else held_binding keyboard)"
    unfolding handle_key_event_held_binding release_held_binding_fst
    by (auto simp: update_shortcut_states_fields)
  let ?acts_held = "(case held_binding keyboard of
                      Some held \<Rightarrow>
                        if ?cand \<noteq> Some held \<and> e_state event = WLR_KEY_RELEASED
                        then [Seat_execute_command held] else []
                    | None \<Rightarrow> [])"
  let ?held_cmds = "(case held_binding keyboard of
           Some held \<Rightarrow>
             if ?cand \<noteq> Some held \<and> e_state event = WLR_KEY_RELEASED then [held] else []
         | None \<Rightarrow> [])"
  have vt: "\<And>syms. executed_commands (snd (keyboard_execute_compositor_binding hc ctx syms)) = []"
    using compositor_binding_acts executed_commands_none by fastforce
  have fw: "\<And>k h. executed_commands (snd (forward_key hc k event h)) = []"
    using forward_key_acts executed_commands_none by fastforce
  have sr: "\<And>k b. executed_commands (snd (setup_key_repeat ctx k b)) = []"
    by (simp add: setup_key_repeat_acts)
  have pbc: "executed_commands (case ?pb of Some b \<Rightarrow> [Seat_execute_command b] | None \<Rightarrow> []) =
      (case ?pb of Some b \<Rightarrow> [b] | None \<Rightarrow> [])"
    by (simp split: option.splits)
  have ah: "executed_commands ?acts_held = ?held_cmds"
    by (simp split: option.splits)
  have a: "\<exists>rest. snd (handle_key_event hc ctx keyboard event) =
         Seat_idle_notify_activity # ?acts_held @ rest \<and>
         executed_commands rest = (case ?pb of Some b \<Rightarrow> [b] | None \<Rightarrow> [])"
  proof -
    let ?r = "release_held_binding ?k1 event ?cand"
    define pre where "pre = snd (setup_key_repeat ctx (fst ?r) ?pb) @
        (case ?pb of Some b \<Rightarrow> [Seat_execute_command b] | None \<Rightarrow> [])"
    have ep: "executed_commands pre = (case ?pb of Some b \<Rightarrow> [b] | None \<Rightarrow> [])"
      unfolding pre_def executed_commands_append sr pbc by simp
    have ah': "fst (snd ?r) = ?acts_held"
      by (simp add: release_held_binding_snd update_shortcut_states_fields)
    have "\<exists>post. snd (handle_key_event hc ctx keyboard event) =
         Seat_idle_notify_activity # fst (snd ?r) @ pre @ post \<and> executed_commands post = []"
      unfolding handle_key_event_unfold pre_def
      by (simp add: executed_commands_append vt fw)
    then obtain post where
      p: "snd (handle_key_event hc ctx keyboard event) =
         Seat_idle_notify_activity # fst (snd ?r) @ pre @ post"
      and q: "executed_commands post = []"
      by blast
    have "executed_commands (pre @ post) = (case ?pb of Some b \<Rightarrow> [b] | None \<Rightarrow> [])"
      unfolding executed_commands_append ep q by simp
    with p ah' show ?thesis by metis
  qed
  then obtain rest where r: "snd (handle_key_event hc ctx keyboard event) =
         Seat_idle_notify_activity # ?acts_held @ rest"
    and er: "executed_commands rest = (case ?pb of Some b \<Rightarrow> [b] | None \<Rightarrow> [])"
    by blast
  have rel: "e_state event = WLR_KEY_RELEASED \<longrightarrow> (\<forall>b. Seat_execute_command b \<notin> set rest)"
    using er by (simp add: executed_commands_none)
  have all: "executed_commands (snd (handle_key_event hc ctx keyboard event)) =
      ?held_cmds @ (case ?pb of Some b \<Rightarrow> [b] | None \<Rightarrow> [])"
    unfolding r using er ah by (simp add: executed_commands_append)

  have pr: "e_state event = WLR_KEY_PRESSED \<longrightarrow> ?acts_held = [] \<and>
      executed_commands (snd (handle_key_event hc ctx keyboard event)) =
        (case ?pb of Some b \<Rightarrow> [b] | None \<Rightarrow> [])"
    using all by (auto split: option.splits)
  show ?thesis
    unfolding Let_def case_prod_beta using h r er rel all pr by blast
qed


theorem held_binding_after_key_event_witness:
  "held_binding (sway_keyboard_create sway_constants) = None \<and>
   held_binding held_keyboard = Some 3 \<and>
   e_state (key_release 38) = WLR_KEY_RELEASED \<and>
   held_binding (fst (handle_key_event sway_constants bound_ctx held_keyboard (key_release 38))) = None \<and>
   take 2 (snd (handle_key_event sway_constants bound_ctx held_keyboard (key_release 38))) =
     [Seat_idle_notify_activity, Seat_execute_command 3] \<and>
   Seat_execute_command 3 \<notin>
     set (drop 2 (snd (handle_key_event sway_constants bound_ctx held_keyboard (key_release 38)))) \<and>
   executed_commands
     (snd (handle_key_event sway_constants bound_ctx held_keyboard (key_release 38))) = [3] \<and>
   e_state (key_press 40) = WLR_KEY_PRESSED \<and>
   held_binding (fst (handle_key_event sway_constants bound_ctx held_keyboard (key_press 40))) = None \<and>
   executed_commands
     (snd (handle_key_event sway_constants bound_ctx held_keyboard (key_press 40))) = []"
proof -
  have c0: "held_binding (sway_keyboard_create sway_constants) = None"
    by (simp add: sway_keyboard_create_def)
  have c1: "held_binding held_keyboard = Some 3" by code_simp
  have c2: "active_binding sway_constants bound_ctx
     (update_shortcut_states sway_constants bound_ctx held_keyboard (key_release 38)) True = None"
    by code_simp
  have c3: "e_state (key_release 38) = WLR_KEY_RELEASED" by (simp add: key_release_def)
  have d2: "active_binding sway_constants bound_ctx
     (update_shortcut_states sway_constants bound_ctx held_keyboard (key_press 40)) True = None"
    "active_binding sway_constants bound_ctx
     (update_shortcut_states sway_constants bound_ctx held_keyboard (key_press 40)) False = None"
    by code_simp+
  have d3: "e_state (key_press 40) = WLR_KEY_PRESSED" by (simp add: key_press_def)
  from held_binding_after_key_event[of sway_constants bound_ctx held_keyboard "key_release 38"]
  obtain rest where
    "held_binding (fst (handle_key_event sway_constants bound_ctx held_keyboard (key_release 38))) = None"
    "snd (handle_key_event sway_constants bound_ctx held_keyboard (key_release 38)) =
       Seat_idle_notify_activity # [Seat_execute_command 3] @ rest"
    "\<forall>b. Seat_execute_command b \<notin> set rest"
    "executed_commands
       (snd (handle_key_event sway_constants bound_ctx held_keyboard (key_release 38))) = [3]"
    unfolding Let_def case_prod_beta c1 c2 using c3 by auto
  moreover
  from held_binding_after_key_event[of sway_constants bound_ctx held_keyboard "key_press 40"]
  have "held_binding (fst (handle_key_event sway_constants bound_ctx held_keyboard (key_press 40))) = None"
    "executed_commands
       (snd (handle_key_event sway_constants bound_ctx held_keyboard (key_press 40))) = []"
    unfolding Let_def case_prod_beta c1 d2 using d3 by auto
  ultimately show ?thesis using c0 c1 c3 d3 by simp
qed

lemma forward_key_repeat:
  "repeat_binding (fst (forward_key hc keyboard event handled)) = repeat_binding keyboard"
  "key_repeat_source (fst (forward_key hc keyboard event handled)) = key_repeat_source keyboard"
  by (simp_all add: forward_key_def Let_def split: prod.splits)

lemma setup_key_repeat_arms:
  "repeat_info_delay ctx > 0 \<Longrightarrow>
   setup_key_repeat ctx keyboard (Some b) =
     (keyboard\<lparr>repeat_binding := Some b, key_repeat_source := repeat_info_delay ctx\<rparr>,
      [Wl_event_source_timer_update (repeat_info_delay ctx)])"
  by (simp add: setup_key_repeat_def)

text \<open>
  C9. With a repeat delay of 600 ms and a rate of 25 per second: a press that resolves to
  a binding remembers it and sets the timer to 600 before the binding is executed; a timer
  expiry with a remembered binding sets the timer to 1000 / 25 = 40 and only then executes
  the binding (with a rate of 0 or less it executes without setting the timer); after
  \<^verbatim>\<open>sway_keyboard_disarm_key_repeat\<close> the timer is at 0, no binding is remembered, and
  an expiry executes nothing.
\<close>

theorem key_repeat_timing:
  assumes "repeat_info_delay ctx = 600" and "repeat_info_rate ctx = 25"
  shows "(e_state event = WLR_KEY_PRESSED \<and>
          active_binding hc ctx (update_shortcut_states hc ctx keyboard event) False = Some b \<longrightarrow>
            repeat_binding (fst (handle_key_event hc ctx keyboard event)) = Some b \<and>
            key_repeat_source (fst (handle_key_event hc ctx keyboard event)) = 600 \<and>
            (\<exists>pre post. snd (handle_key_event hc ctx keyboard event) =
               pre @ Wl_event_source_timer_update 600 # Seat_execute_command b # post)) \<and>
         (repeat_binding keyboard = Some b \<longrightarrow>
            handle_keyboard_repeat ctx keyboard =
              (keyboard\<lparr>key_repeat_source := 40\<rparr>,
               [Wl_event_source_timer_update 40, Seat_execute_command b,
                Transaction_commit_dirty])) \<and>
         (repeat_binding keyboard = Some b \<and> repeat_info_rate ctx' \<le> 0 \<longrightarrow>
            handle_keyboard_repeat ctx' keyboard =
              (keyboard, [Seat_execute_command b, Transaction_commit_dirty])) \<and>
         (case sway_keyboard_disarm_key_repeat (Some keyboard) of
            (Some keyboard', acts) \<Rightarrow>
              acts = [Wl_event_source_timer_update 0] \<and>
              repeat_binding keyboard' = None \<and> key_repeat_source keyboard' = 0 \<and>
              handle_keyboard_repeat ctx keyboard' = (keyboard', [])
          | (None, acts) \<Rightarrow> False)"
proof -
  have 1: "repeat_binding (fst (handle_key_event hc ctx keyboard event)) = Some b \<and>
            key_repeat_source (fst (handle_key_event hc ctx keyboard event)) = 600 \<and>
            (\<exists>pre post. snd (handle_key_event hc ctx keyboard event) =
               pre @ Wl_event_source_timer_update 600 # Seat_execute_command b # post)"
    if p: "e_state event = WLR_KEY_PRESSED"
      and a: "active_binding hc ctx (update_shortcut_states hc ctx keyboard event) False = Some b"
  proof -
    let ?k1 = "update_shortcut_states hc ctx keyboard event"
    let ?r = "release_held_binding ?k1 event (active_binding hc ctx ?k1 True)"
    have d: "repeat_info_delay ctx > 0" using assms by simp
    have s: "setup_key_repeat ctx (fst ?r) (Some b) =
       ((fst ?r)\<lparr>repeat_binding := Some b, key_repeat_source := 600\<rparr>,
        [Wl_event_source_timer_update 600])"
      using setup_key_repeat_arms[OF d] assms by simp
    have e: "\<exists>post. snd (handle_key_event hc ctx keyboard event) =
       (Seat_idle_notify_activity # fst (snd ?r)) @
       Wl_event_source_timer_update 600 # Seat_execute_command b # post"
      unfolding handle_key_event_unfold using p a s by simp
    then have "\<exists>pre post. snd (handle_key_event hc ctx keyboard event) =
               pre @ Wl_event_source_timer_update 600 # Seat_execute_command b # post"
      by blast
    moreover have "repeat_binding (fst (handle_key_event hc ctx keyboard event)) = Some b"
      "key_repeat_source (fst (handle_key_event hc ctx keyboard event)) = 600"
      unfolding handle_key_event_unfold using p a s by (simp_all add: forward_key_repeat)
    ultimately show ?thesis by simp
  qed
  have 2: "repeat_binding keyboard = Some b \<Longrightarrow>
            handle_keyboard_repeat ctx keyboard =
              (keyboard\<lparr>key_repeat_source := 40\<rparr>,
               [Wl_event_source_timer_update 40, Seat_execute_command b,
                Transaction_commit_dirty])"
    using assms by (simp add: handle_keyboard_repeat_def)
  have 3: "repeat_binding keyboard = Some b \<and> repeat_info_rate ctx' \<le> 0 \<Longrightarrow>
            handle_keyboard_repeat ctx' keyboard =
              (keyboard, [Seat_execute_command b, Transaction_commit_dirty])"
    by (simp add: handle_keyboard_repeat_def)
  have 4: "(case sway_keyboard_disarm_key_repeat (Some keyboard) of
            (Some keyboard', acts) \<Rightarrow>
              acts = [Wl_event_source_timer_update 0] \<and>
              repeat_binding keyboard' = None \<and> key_repeat_source keyboard' = 0 \<and>
              handle_keyboard_repeat ctx keyboard' = (keyboard', [])
          | (None, acts) \<Rightarrow> False)"
    by (simp add: sway_keyboard_disarm_key_repeat_def handle_keyboard_repeat_def)
  show ?thesis using 1 2 3 4 by blast
qed

theorem key_repeat_timing_witness:
  "repeat_info_delay bound_ctx = 600 \<and> repeat_info_rate bound_ctx = 25 \<and>
   e_state (key_press 38) = WLR_KEY_PRESSED \<and>
   active_binding sway_constants bound_ctx
     (update_shortcut_states sway_constants bound_ctx (sway_keyboard_create sway_constants)
        (key_press 38)) False = Some 4 \<and>
   repeat_binding held_keyboard = Some 4 \<and> key_repeat_source held_keyboard = 600 \<and>
   handle_keyboard_repeat bound_ctx held_keyboard =
     (held_keyboard\<lparr>key_repeat_source := 40\<rparr>,
      [Wl_event_source_timer_update 40, Seat_execute_command 4, Transaction_commit_dirty]) \<and>
   handle_keyboard_repeat (bound_ctx\<lparr>repeat_info_rate := 0\<rparr>) held_keyboard =
     (held_keyboard, [Seat_execute_command 4, Transaction_commit_dirty])"
proof -
  have d: "repeat_info_delay bound_ctx = 600" "repeat_info_rate bound_ctx = 25"
    by (simp_all add: bound_ctx_def plain_ctx_def)
  have p: "e_state (key_press 38) = WLR_KEY_PRESSED" by (simp add: key_press_def)
  have a: "active_binding sway_constants bound_ctx
     (update_shortcut_states sway_constants bound_ctx (sway_keyboard_create sway_constants)
        (key_press 38)) False = Some 4"
    by code_simp
  note t = key_repeat_timing[OF d, where hc = sway_constants
      and keyboard = "sway_keyboard_create sway_constants" and event = "key_press 38" and b = 4]
  from t p a have r: "repeat_binding held_keyboard = Some 4"
    "key_repeat_source held_keyboard = 600"
    unfolding held_keyboard_def by blast+
  note u = key_repeat_timing[OF d, where keyboard = held_keyboard and b = 4
      and ctx' = "bound_ctx\<lparr>repeat_info_rate := 0\<rparr>"]
  from u r have
    "handle_keyboard_repeat bound_ctx held_keyboard =
     (held_keyboard\<lparr>key_repeat_source := 40\<rparr>,
      [Wl_event_source_timer_update 40, Seat_execute_command 4, Transaction_commit_dirty])"
    "handle_keyboard_repeat (bound_ctx\<lparr>repeat_info_rate := 0\<rparr>) held_keyboard =
     (held_keyboard, [Seat_execute_command 4, Transaction_commit_dirty])"
    by simp_all
  then show ?thesis using d p a r by simp
qed

lemma client_sees_quiet: "\<not> is_notify_key a \<Longrightarrow> client_sees P a = P"
  by (cases a) auto

lemma fold_client_sees_filter:
  "fold (\<lambda>a P. client_sees P a) acts P = fold (\<lambda>a P. client_sees P a) (filter is_notify_key acts) P"
  by (induction acts arbitrary: P) (auto simp: client_sees_quiet)

lemma releases_answer_presses_filter:
  "releases_answer_presses P acts = releases_answer_presses P (filter is_notify_key acts)"
proof (induction acts arbitrary: P)
  case Nil
  then show ?case by simp
next
  case (Cons a acts)
  then show ?case by (cases a) (auto simp: client_sees_quiet)
qed

lemma releases_answer_presses_append:
  "releases_answer_presses P (xs @ ys) \<longleftrightarrow>
     releases_answer_presses P xs \<and>
     releases_answer_presses (fold (\<lambda>a P. client_sees P a) xs P) ys"
  by (induction xs arbitrary: P) auto

lemma forward_key_props:
  assumes inv: "sent_inv hc k"
  shows "sent_inv hc (fst (forward_key hc k event handled))"
    and "handled \<Longrightarrow> e_state event = WLR_KEY_PRESSED \<Longrightarrow>
           forward_key hc k event handled = (k, [])"
    and "\<not> handled \<Longrightarrow> e_state event = WLR_KEY_PRESSED \<Longrightarrow>
           snd (forward_key hc k event handled) =
             [Wlr_seat_set_keyboard,
              Wlr_seat_keyboard_notify_key (e_time_msec event) (e_keycode event) WLR_KEY_PRESSED] \<and>
           pressed (state_pressed_sent (fst (forward_key hc k event handled))) =
             (if length (pressed (state_pressed_sent k)) < SWAY_KEYBOARD_PRESSED_KEYS_CAP hc
              then insort_key fst (e_keycode event + 8, e_keycode event)
                     (pressed (state_pressed_sent k))
              else pressed (state_pressed_sent k))"
    and "e_state event = WLR_KEY_RELEASED \<Longrightarrow>
           snd (forward_key hc k event handled) =
             (if e_keycode event \<in> sent_keycodes k
              then [Wlr_seat_set_keyboard,
                    Wlr_seat_keyboard_notify_key (e_time_msec event) (e_keycode event)
                      WLR_KEY_RELEASED]
              else []) \<and>
           pressed (state_pressed_sent (fst (forward_key hc k event handled))) =
             filter (\<lambda>p. snd p \<noteq> e_keycode event) (pressed (state_pressed_sent k))"
proof -
  let ?s = "state_pressed_sent k"
  let ?u = "update_shortcut_state hc ?s event (e_keycode event + 8) 0"
  have wf: "state_wf hc ?s" and z: "last_raw_modifiers ?s = 0"
    using inv by (simp_all add: sent_inv_def)
  note p = update_shortcut_state_props[OF wf, where raw_modifiers = 0 and event = event
      and new_key = "e_keycode event + 8"]
  have f: "\<And>handled. forward_key hc k event handled =
     (if \<not> handled \<or> e_state event = WLR_KEY_RELEASED then
        (k\<lparr>state_pressed_sent := snd ?u\<rparr>,
         if fst ?u \<or> e_state event = WLR_KEY_PRESSED
         then [Wlr_seat_set_keyboard,
               Wlr_seat_keyboard_notify_key (e_time_msec event) (e_keycode event) (e_state event)]
         else [])
      else (k, []))"
    by (simp add: forward_key_def Let_def case_prod_beta)
  show "sent_inv hc (fst (forward_key hc k event handled))"
    using p(1,2) inv by (simp add: f sent_inv_def)
  show "handled \<Longrightarrow> e_state event = WLR_KEY_PRESSED \<Longrightarrow>
           forward_key hc k event handled = (k, [])"
    by (simp add: forward_key_def)
  show "\<not> handled \<Longrightarrow> e_state event = WLR_KEY_PRESSED \<Longrightarrow>
           snd (forward_key hc k event handled) =
             [Wlr_seat_set_keyboard,
              Wlr_seat_keyboard_notify_key (e_time_msec event) (e_keycode event) WLR_KEY_PRESSED] \<and>
           pressed (state_pressed_sent (fst (forward_key hc k event handled))) =
             (if length (pressed (state_pressed_sent k)) < SWAY_KEYBOARD_PRESSED_KEYS_CAP hc
              then insort_key fst (e_keycode event + 8, e_keycode event)
                     (pressed (state_pressed_sent k))
              else pressed (state_pressed_sent k))"
    using p(3) z by (simp add: f)
  show "e_state event = WLR_KEY_RELEASED \<Longrightarrow>
           snd (forward_key hc k event handled) =
             (if e_keycode event \<in> sent_keycodes k
              then [Wlr_seat_set_keyboard,
                    Wlr_seat_keyboard_notify_key (e_time_msec event) (e_keycode event)
                      WLR_KEY_RELEASED]
              else []) \<and>
           pressed (state_pressed_sent (fst (forward_key hc k event handled))) =
             filter (\<lambda>p. snd p \<noteq> e_keycode event) (pressed (state_pressed_sent k))"
    using p(4) z by (simp add: f sent_keycodes_def)
qed

lemma forward_key_cong:
  "state_pressed_sent k' = state_pressed_sent k \<Longrightarrow>
   state_pressed_sent (fst (forward_key hc k' event handled)) =
     state_pressed_sent (fst (forward_key hc k event handled)) \<and>
   snd (forward_key hc k' event handled) = snd (forward_key hc k event handled)"
  by (simp add: forward_key_def Let_def case_prod_beta)

text \<open>What a call of \<open>handle_key_event\<close> does to the "sent to client" state and which
  key notifications it makes: none at the early return, those of \<open>forward_key\<close> otherwise.\<close>

lemma handle_key_event_sent:
  fixes hc ctx keyboard event
  defines "r \<equiv> handle_key_event hc ctx keyboard event"
  defines "early \<equiv> keyboard_in_group ctx \<and> (\<forall>b. Seat_execute_command b \<notin> set (snd r))"
  shows "\<exists>handled.
     (handled \<longrightarrow> e_state event = WLR_KEY_PRESSED \<longrightarrow>
        (\<forall>t k. Wlr_seat_keyboard_notify_key t k WLR_KEY_PRESSED \<notin> set (snd r))) \<and>
     state_pressed_sent (fst r) =
       (if early then state_pressed_sent keyboard
        else state_pressed_sent (fst (forward_key hc keyboard event handled))) \<and>
     filter is_notify_key (snd r) =
       (if early then []
        else filter is_notify_key (snd (forward_key hc keyboard event handled)))"
proof -
  let ?k1 = "update_shortcut_states hc ctx keyboard event"
  let ?cand = "active_binding hc ctx ?k1 True"
  let ?k2 = "fst (release_held_binding ?k1 event ?cand)"
  let ?binding = "(if e_state event = WLR_KEY_PRESSED
                        then active_binding hc ctx ?k1 False else None)"
  define k3 where "k3 = fst (setup_key_repeat ctx ?k2 ?binding)"
  define acts where "acts =
     Seat_idle_notify_activity # fst (snd (release_held_binding ?k1 event ?cand)) @
       snd (setup_key_repeat ctx ?k2 ?binding) @
       (case ?binding of Some b \<Rightarrow> [Seat_execute_command b] | None \<Rightarrow> [])"
  let ?handled2 = "(held_binding keyboard \<noteq> None \<and> ?cand \<noteq> held_binding keyboard \<and>
      e_state event = WLR_KEY_RELEASED) \<or> ?binding \<noteq> None"
  have ex: "(\<exists>b. Seat_execute_command b \<in> set (snd r)) = ?handled2"
    unfolding r_def by (rule execute_iff_handled)
  have early: "early = (\<not> ?handled2 \<and> keyboard_in_group ctx)"
    unfolding early_def using ex by blast
  have s3: "state_pressed_sent k3 = state_pressed_sent keyboard"
    by (simp add: k3_def setup_key_repeat_fields release_held_binding_fst
        update_shortcut_states_fields)
  have vt: "\<And>syms. filter is_notify_key (snd (keyboard_execute_compositor_binding hc ctx syms)) = []"
    subgoal for syms by (induction syms) auto
    done
  have q1: "filter is_notify_key (fst (snd (release_held_binding ?k1 event ?cand))) = []"
    by (auto simp: release_held_binding_snd split: option.splits)
  have q2: "filter is_notify_key (snd (setup_key_repeat ctx ?k2 ?binding)) = []"
    by (simp add: setup_key_repeat_acts)
  have q3: "filter is_notify_key (case ?binding of Some b \<Rightarrow> [Seat_execute_command b] | None \<Rightarrow> []) = []"
    by (simp split: option.splits)
  define vt1 where "vt1 = (if \<not> ?handled2 \<and> e_state event = WLR_KEY_PRESSED
                   then keyboard_execute_compositor_binding hc ctx
                          (fst (keyboard_keysyms_translated ctx))
                   else (?handled2, []))"
  define vt2 where "vt2 = (if \<not> fst vt1 \<and> e_state event = WLR_KEY_PRESSED
                   then keyboard_execute_compositor_binding hc ctx
                          (fst (keyboard_keysyms_raw ctx))
                   else (fst vt1, []))"
  have v: "filter is_notify_key (snd vt1) = []" "filter is_notify_key (snd vt2) = []"
    by (simp_all add: vt1_def vt2_def vt)
  have h2: "snd (snd (release_held_binding ?k1 event ?cand)) \<or> ?binding \<noteq> None \<longleftrightarrow> ?handled2"
    by (simp add: release_held_binding_snd update_shortcut_states_fields)
  have qa: "filter is_notify_key acts = []"
    using q1 q2 q3 by (simp add: acts_def)
  have r: "r = (if \<not> ?handled2 \<and> keyboard_in_group ctx
        then (k3, acts)
        else (fst (forward_key hc k3 event (fst vt2)),
            acts @ snd vt1 @ snd vt2 @ snd (forward_key hc k3 event (fst vt2)) @
            [Transaction_commit_dirty]))"
    unfolding r_def handle_key_event_unfold vt1_def vt2_def h2 k3_def acts_def by simp
  note fc = forward_key_cong[OF s3, of hc event "fst vt2"]
  have a: "state_pressed_sent (fst r) =
       (if early then state_pressed_sent keyboard
        else state_pressed_sent (fst (forward_key hc keyboard event (fst vt2))))"
    using fc s3 by (simp add: r early)
  have b: "filter is_notify_key (snd r) =
       (if early then []
        else filter is_notify_key (snd (forward_key hc keyboard event (fst vt2))))"
    using fc qa v by (simp add: r early)
  have c: "fst vt2 \<longrightarrow> e_state event = WLR_KEY_PRESSED \<longrightarrow>
        (\<forall>t k. Wlr_seat_keyboard_notify_key t k WLR_KEY_PRESSED \<notin> set (snd r))"
  proof (intro impI allI)
    fix t k assume h: "fst vt2" and p: "e_state event = WLR_KEY_PRESSED"
    have "forward_key hc keyboard event (fst vt2) = (keyboard, [])"
      using h p by (simp add: forward_key_def)
    with b have "filter is_notify_key (snd r) = []" by simp
    then have "\<forall>a \<in> set (snd r). \<not> is_notify_key a" by (simp add: filter_empty_conv)
    then show "Wlr_seat_keyboard_notify_key t k WLR_KEY_PRESSED \<notin> set (snd r)" by auto
  qed
  from a b c show ?thesis by blast
qed

lemma sent_inv_create: "sent_inv hc (sway_keyboard_create hc)"
  by (simp add: sent_inv_def sway_keyboard_create_def state_wf_zero)
     (simp add: shortcut_state_zero_def)

lemma sent_keycodes_create: "sent_keycodes (sway_keyboard_create hc) = {}"
  by (simp add: sent_keycodes_def sway_keyboard_create_def pressed_zero)

lemma handle_key_event_step:
  fixes hc ctx k event
  assumes inv: "sent_inv hc k" and sub: "sent_keycodes k \<subseteq> P"
  defines "r \<equiv> handle_key_event hc ctx k event"
  shows "sent_inv hc (fst r) \<and> releases_answer_presses P (snd r) \<and>
         sent_keycodes (fst r) \<subseteq> fold (\<lambda>a P. client_sees P a) (snd r) P"
proof -
  define early where
    "early \<longleftrightarrow> keyboard_in_group ctx \<and> (\<forall>b. Seat_execute_command b \<notin> set (snd r))"
  from handle_key_event_sent[where hc = hc and ctx = ctx and keyboard = k and event = event]
  obtain handled where
    s: "state_pressed_sent (fst r) =
       (if early then state_pressed_sent k
        else state_pressed_sent (fst (forward_key hc k event handled)))"
    and n: "filter is_notify_key (snd r) =
       (if early then []
        else filter is_notify_key (snd (forward_key hc k event handled)))"
    unfolding r_def early_def by blast
  define f where "f = forward_key hc k event handled"
  note p = forward_key_props[OF inv, where event = event and handled = handled, folded f_def]
  have goal: "sent_inv hc k' \<and> releases_answer_presses P acts \<and>
         sent_keycodes k' \<subseteq> fold (\<lambda>a P. client_sees P a) acts P"
    if "state_pressed_sent k' = state_pressed_sent (fst f)"
      and "filter is_notify_key acts = filter is_notify_key (snd f)" for k' acts
  proof -
    have i: "sent_inv hc k'" using p(1) that(1) by (simp add: sent_inv_def)
    have k: "sent_keycodes k' = sent_keycodes (fst f)"
      using that(1) by (simp add: sent_keycodes_def)
    have ra: "releases_answer_presses P acts = releases_answer_presses P (snd f)"
      using that(2) releases_answer_presses_filter by metis
    have fo: "fold (\<lambda>a P. client_sees P a) acts P = fold (\<lambda>a P. client_sees P a) (snd f) P"
      using that(2) fold_client_sees_filter by metis
    show ?thesis
    proof (cases "e_state event")
      case WLR_KEY_RELEASED
      from p(4)[OF this] sub i show ?thesis
        unfolding k ra fo by (auto simp: sent_keycodes_def)
    next
      case WLR_KEY_PRESSED
      show ?thesis
      proof (cases handled)
        case True
        from p(2)[OF this WLR_KEY_PRESSED] sub i show ?thesis
          unfolding k ra fo by simp
      next
        case False
        from p(3)[OF this WLR_KEY_PRESSED] sub i show ?thesis
          unfolding k ra fo by (auto simp: sent_keycodes_def set_insort_key)
      qed
    qed
  qed
  show ?thesis
  proof (cases early)
    case True
    have i: "sent_inv hc (fst r)" using inv s True by (simp add: sent_inv_def)
    have k: "sent_keycodes (fst r) = sent_keycodes k"
      using s True by (simp add: sent_keycodes_def)
    have "releases_answer_presses P (snd r) = releases_answer_presses P []"
      using n True releases_answer_presses_filter by metis
    moreover have "fold (\<lambda>a P. client_sees P a) (snd r) P = fold (\<lambda>a P. client_sees P a) [] P"
      using n True fold_client_sees_filter by metis
    ultimately show ?thesis using i k sub by simp
  next
    case False
    then show ?thesis using goal[of "fst r" "snd r"] s n by (simp add: f_def)
  qed
qed

lemma handle_key_events_inv:
  "sent_inv hc k \<Longrightarrow> sent_keycodes k \<subseteq> P \<Longrightarrow>
   sent_inv hc (fst (handle_key_events hc k events)) \<and>
   releases_answer_presses P (snd (handle_key_events hc k events)) \<and>
   sent_keycodes (fst (handle_key_events hc k events)) \<subseteq>
     fold (\<lambda>a P. client_sees P a) (snd (handle_key_events hc k events)) P"
proof (induction events arbitrary: k P)
  case Nil
  then show ?case by simp
next
  case (Cons x events)
  obtain ctx event where x: "x = (ctx, event)" by (cases x)
  let ?r = "handle_key_event hc ctx k event"
  note st = handle_key_event_step[OF Cons.prems, where ctx = ctx and event = event]
  from st have a: "sent_inv hc (fst ?r)"
    and b: "releases_answer_presses P (snd ?r)"
    and c: "sent_keycodes (fst ?r) \<subseteq> fold (\<lambda>a P. client_sees P a) (snd ?r) P"
    by simp_all
  note ih = Cons.IH[OF a c]
  show ?case
    using ih b by (simp add: x case_prod_beta Let_def releases_answer_presses_append)
qed


lemma notify_in_filter:
  "Wlr_seat_keyboard_notify_key t c st \<in> set acts \<longleftrightarrow>
   Wlr_seat_keyboard_notify_key t c st \<in> set (filter is_notify_key acts)"
  by simp

text \<open>
  C6, as stated, fails: a press is forwarded whether or not \<^verbatim>\<open>state_add_key\<close> had room
  to record it, and a release is forwarded only when its keycode is recorded. With 32
  keys held and forwarded, the press of a 33rd key is forwarded and its release is not.
\<close>

theorem many_keys_release_not_forwarded_counterexample:
  "Wlr_seat_keyboard_notify_key 0 33 WLR_KEY_PRESSED \<in>
     set (snd (handle_key_events sway_constants (sway_keyboard_create sway_constants) many_keys)) \<and>
   Wlr_seat_keyboard_notify_key 0 33 WLR_KEY_RELEASED \<notin>
     set (snd (handle_key_events sway_constants (sway_keyboard_create sway_constants) many_keys))"
  by code_simp

text \<open>
  C6, amended. After every sequence of key events on a new keyboard: every forwarded
  release is for a keycode that the client holds for pressed at that moment (a press of
  it was forwarded and no release of it since), and the keycodes recorded in the "sent to
  client" state are among those. For the next event: a release is forwarded if and only
  if its keycode is recorded and the event reaches the forwarding block (the keyboard is
  in no group, or a binding was executed); a forwarded press is recorded when the state
  is below capacity; and a recorded keycode stays recorded unless the event is such a
  release of it.
\<close>

theorem forwarded_release_answers_forwarded_press:
  "let (keyboard, acts) = handle_key_events hc (sway_keyboard_create hc) events;
       (keyboard', acts') = handle_key_event hc ctx keyboard event;
       reached = (\<not> keyboard_in_group ctx \<or> (\<exists>b. Seat_execute_command b \<in> set acts'))
   in releases_answer_presses {} acts \<and>
      sent_keycodes keyboard \<subseteq> client_holds acts \<and>
      (e_state event = WLR_KEY_RELEASED \<longrightarrow>
         ((\<exists>t. Wlr_seat_keyboard_notify_key t (e_keycode event) WLR_KEY_RELEASED \<in> set acts') \<longleftrightarrow>
          e_keycode event \<in> sent_keycodes keyboard \<and> reached)) \<and>
      (e_state event = WLR_KEY_PRESSED \<and>
       (\<exists>t. Wlr_seat_keyboard_notify_key t (e_keycode event) WLR_KEY_PRESSED \<in> set acts') \<and>
       npressed (state_pressed_sent keyboard) < SWAY_KEYBOARD_PRESSED_KEYS_CAP hc \<longrightarrow>
         e_keycode event \<in> sent_keycodes keyboard') \<and>
      (\<forall>c \<in> sent_keycodes keyboard.
         \<not> (e_state event = WLR_KEY_RELEASED \<and> c = e_keycode event \<and> reached) \<longrightarrow>
         c \<in> sent_keycodes keyboard')"
proof -
  define k where "k = fst (handle_key_events hc (sway_keyboard_create hc) events)"
  define acts where "acts = snd (handle_key_events hc (sway_keyboard_create hc) events)"
  define r where "r = handle_key_event hc ctx k event"
  define early where
    "early \<longleftrightarrow> keyboard_in_group ctx \<and> (\<forall>b. Seat_execute_command b \<notin> set (snd r))"
  from handle_key_events_inv[OF sent_inv_create, of hc "{}" events]
  have inv: "sent_inv hc k" and ra: "releases_answer_presses {} acts"
    and sub: "sent_keycodes k \<subseteq> client_holds acts"
    by (simp_all add: k_def acts_def sent_keycodes_create client_holds_def)
  from handle_key_event_sent[where hc = hc and ctx = ctx and keyboard = k and event = event]
  obtain handled where
    h: "handled \<Longrightarrow> e_state event = WLR_KEY_PRESSED \<Longrightarrow>
        (\<forall>t c. Wlr_seat_keyboard_notify_key t c WLR_KEY_PRESSED \<notin> set (snd r))"
    and s: "state_pressed_sent (fst r) =
       (if early then state_pressed_sent k
        else state_pressed_sent (fst (forward_key hc k event handled)))"
    and n: "filter is_notify_key (snd r) =
       (if early then []
        else filter is_notify_key (snd (forward_key hc k event handled)))"
    unfolding r_def early_def by blast
  define f where "f = forward_key hc k event handled"
  note p = forward_key_props[OF inv, where event = event and handled = handled, folded f_def]
  have sk: "sent_keycodes (fst r) = (if early then sent_keycodes k else sent_keycodes (fst f))"
    using s by (simp add: sent_keycodes_def f_def)
  have nn: "\<And>t c st. Wlr_seat_keyboard_notify_key t c st \<in> set (snd r) \<longleftrightarrow>
      \<not> early \<and> Wlr_seat_keyboard_notify_key t c st \<in> set (snd f)"
    subgoal for t c st
      using notify_in_filter[of t c st "snd r"] n by (auto simp: f_def)
    done
  have len: "length (pressed (state_pressed_sent k)) = npressed (state_pressed_sent k)"
    using inv length_pressed[of hc "state_pressed_sent k"] by (simp add: sent_inv_def)
  have a: "e_state event = WLR_KEY_RELEASED \<Longrightarrow>
         ((\<exists>t. Wlr_seat_keyboard_notify_key t (e_keycode event) WLR_KEY_RELEASED \<in> set (snd r)) \<longleftrightarrow>
          e_keycode event \<in> sent_keycodes k \<and> \<not> early)"
    using p(4) by (auto simp: nn)
  have b: "e_state event = WLR_KEY_PRESSED \<and>
       (\<exists>t. Wlr_seat_keyboard_notify_key t (e_keycode event) WLR_KEY_PRESSED \<in> set (snd r)) \<and>
       npressed (state_pressed_sent k) < SWAY_KEYBOARD_PRESSED_KEYS_CAP hc \<Longrightarrow>
         e_keycode event \<in> sent_keycodes (fst r)"
  proof -
    assume as: "e_state event = WLR_KEY_PRESSED \<and>
       (\<exists>t. Wlr_seat_keyboard_notify_key t (e_keycode event) WLR_KEY_PRESSED \<in> set (snd r)) \<and>
       npressed (state_pressed_sent k) < SWAY_KEYBOARD_PRESSED_KEYS_CAP hc"
    then have ne: "\<not> early" using nn by blast
    from as h have nh: "\<not> handled" by blast
    from p(3)[OF nh] as len have "e_keycode event \<in> sent_keycodes (fst f)"
      by (force simp: sent_keycodes_def set_insort_key)
    then show ?thesis by (simp add: sk ne)
  qed
  have c: "c \<in> sent_keycodes (fst r)"
    if "c \<in> sent_keycodes k"
      and "\<not> (e_state event = WLR_KEY_RELEASED \<and> c = e_keycode event \<and> \<not> early)" for c
  proof (cases early)
    case True
    then show ?thesis using that sk by simp
  next
    case False
    show ?thesis
    proof (cases "e_state event")
      case WLR_KEY_RELEASED
      from p(4)[OF this] that False WLR_KEY_RELEASED have "c \<in> sent_keycodes (fst f)"
        by (auto simp: sent_keycodes_def)
      then show ?thesis by (simp add: sk False)
    next
      case WLR_KEY_PRESSED
      show ?thesis
      proof (cases handled)
        case True
        from p(2)[OF this WLR_KEY_PRESSED] that show ?thesis
          by (simp add: sk False)
      next
        case nh: False
        from p(3)[OF this WLR_KEY_PRESSED] that have "c \<in> sent_keycodes (fst f)"
          by (auto simp: sent_keycodes_def set_insort_key)
        then show ?thesis by (simp add: sk False)
      qed
    qed
  qed
  have e: "(\<not> keyboard_in_group ctx \<or> (\<exists>b. Seat_execute_command b \<in> set (snd r))) = (\<not> early)"
    by (auto simp: early_def)
  show ?thesis
    unfolding Let_def case_prod_beta k_def[symmetric] acts_def[symmetric] r_def[symmetric] e
    using ra sub a b c by blast
qed


theorem forwarded_release_answers_forwarded_press_witness:
  "e_state (key_press 38) = WLR_KEY_PRESSED \<and>
   Wlr_seat_keyboard_notify_key 0 38 WLR_KEY_PRESSED \<in>
     set (snd (handle_key_event sway_constants plain_ctx (sway_keyboard_create sway_constants)
                 (key_press 38))) \<and>
   npressed (state_pressed_sent (sway_keyboard_create sway_constants)) <
     SWAY_KEYBOARD_PRESSED_KEYS_CAP sway_constants \<and>
   38 \<in> sent_keycodes one_key_keyboard \<and>
   e_state (key_release 38) = WLR_KEY_RELEASED \<and>
   (\<exists>t. Wlr_seat_keyboard_notify_key t 38 WLR_KEY_RELEASED \<in>
     set (snd (handle_key_event sway_constants plain_ctx one_key_keyboard (key_release 38)))) \<and>
   38 \<in> sent_keycodes
     (fst (handle_key_event sway_constants plain_ctx one_key_keyboard (key_press 40)))"
proof -
  have p: "e_state (key_press 38) = WLR_KEY_PRESSED" "e_keycode (key_press 38) = 38"
    "e_state (key_press 40) = WLR_KEY_PRESSED"
    "e_state (key_release 38) = WLR_KEY_RELEASED" "e_keycode (key_release 38) = 38"
    by (simp_all add: key_press_def key_release_def)
  have n: "Wlr_seat_keyboard_notify_key 0 38 WLR_KEY_PRESSED \<in>
     set (snd (handle_key_event sway_constants plain_ctx (sway_keyboard_create sway_constants)
                 (key_press 38)))"
    by code_simp
  have c: "npressed (state_pressed_sent (sway_keyboard_create sway_constants)) <
     SWAY_KEYBOARD_PRESSED_KEYS_CAP sway_constants"
    by code_simp
  have g: "\<not> keyboard_in_group plain_ctx" by (simp add: plain_ctx_def)
  have run: "handle_key_events sway_constants (sway_keyboard_create sway_constants)
      [(plain_ctx, key_press 38)] =
     (one_key_keyboard,
      snd (handle_key_event sway_constants plain_ctx (sway_keyboard_create sway_constants)
             (key_press 38)))"
    by (simp add: one_key_keyboard_def case_prod_beta)
  from forwarded_release_answers_forwarded_press
         [of sway_constants "[]" plain_ctx "key_press 38"] p n c
  have s1: "38 \<in> sent_keycodes one_key_keyboard"
    unfolding one_key_keyboard_def by (auto simp: Let_def case_prod_beta)
  from forwarded_release_answers_forwarded_press
         [of sway_constants "[(plain_ctx, key_press 38)]" plain_ctx "key_release 38"] p g s1
  have s2: "\<exists>t. Wlr_seat_keyboard_notify_key t 38 WLR_KEY_RELEASED \<in>
     set (snd (handle_key_event sway_constants plain_ctx one_key_keyboard (key_release 38)))"
    unfolding run by (simp add: Let_def case_prod_beta)
  from forwarded_release_answers_forwarded_press
         [of sway_constants "[(plain_ctx, key_press 38)]" plain_ctx "key_press 40"] p s1
  have s3: "38 \<in> sent_keycodes
     (fst (handle_key_event sway_constants plain_ctx one_key_keyboard (key_press 40)))"
    unfolding run by (simp add: Let_def case_prod_beta)
  show ?thesis using p n c s1 s2 s3 by simp
qed

section \<open>The single-key comparison on tracked states\<close>

lemma current_key_state_add_key:
  "current_key (state_add_key hc s keycode key_id) =
     (if npressed s \<ge> SWAY_KEYBOARD_PRESSED_KEYS_CAP hc then current_key s else key_id)"
  by (simp add: state_add_key_def Let_def case_prod_beta)

lemma current_key_apply_state_op:
  assumes wf: "state_wf hc s"
    and inv: "current_key s = 0 \<or> current_key s \<in> fst ` set (pressed s)"
  shows "current_key (apply_state_op hc op s) = 0 \<or>
         current_key (apply_state_op hc op s) \<in> fst ` set (pressed (apply_state_op hc op s))"
proof (cases op)
  case (Add keycode key_id)
  then show ?thesis using inv
    by (auto simp: current_key_state_add_key pressed_state_add_key[OF wf] set_insort_key)
next
  case (Erase keycode)
  then show ?thesis using state_erase_key_props(3)[OF wf] by simp
next
  case (Update event new_key raw_modifiers)
  let ?s1 = "s\<lparr>last_raw_modifiers := raw_modifiers\<rparr>"
  define s2 where "s2 = (if raw_modifiers \<noteq> last_raw_modifiers s \<and> last_keycode s \<noteq> 0
                then snd (state_erase_key ?s1 (last_keycode s)) else ?s1)"
  have wf1: "state_wf hc ?s1" using wf by (simp add: state_wf_def)
  have wf2: "state_wf hc s2"
    using state_erase_key_props(4)[OF wf1] wf1 by (simp add: s2_def)
  have i2: "current_key s2 = 0 \<or> current_key s2 \<in> fst ` set (pressed s2)"
    using state_erase_key_props(3)[OF wf1] inv by (auto simp: s2_def pressed_def)
  have u: "snd (update_shortcut_state hc s event new_key raw_modifiers) =
     (if e_state event = WLR_KEY_PRESSED
      then (state_add_key hc s2 (e_keycode event) new_key)\<lparr>last_keycode := e_keycode event\<rparr>
      else snd (state_erase_key s2 (e_keycode event)))"
    by (simp add: update_shortcut_state_unfold s2_def Let_def)
  have pl: "\<And>t k. pressed (t\<lparr>last_keycode := k\<rparr>) = pressed t" by (simp add: pressed_def)
  show ?thesis
  proof (cases "e_state event")
    case WLR_KEY_RELEASED
    then show ?thesis using Update state_erase_key_props(3)[OF wf2] by (simp add: u)
  next
    case WLR_KEY_PRESSED
    then show ?thesis using Update i2
      by (auto simp: u pl current_key_state_add_key pressed_state_add_key[OF wf2] set_insort_key)
  qed
qed

lemma current_key_fold_apply_state_op:
  "state_wf hc s \<Longrightarrow> current_key s = 0 \<or> current_key s \<in> fst ` set (pressed s) \<Longrightarrow>
   current_key (fold (apply_state_op hc) ops s) = 0 \<or>
   current_key (fold (apply_state_op hc) ops s) \<in> fst ` set (pressed (fold (apply_state_op hc) ops s))"
proof (induction ops arbitrary: s)
  case Nil
  then show ?case by simp
next
  case (Cons op ops)
  from Cons.IH[OF state_wf_apply_state_op[OF Cons.prems(1)]
      current_key_apply_state_op[OF Cons.prems]]
  show ?case by simp
qed

text \<open>
  On the states that the tracker produces, and for a binding whose single key is not 0,
  comparing with \<open>current_key\<close> also when one key is pressed would change nothing.
\<close>

lemma binding_match_tracked_state:
  fixes hc ops binding
  defines "state \<equiv> fold (apply_state_op hc) ops (shortcut_state_zero hc)"
  assumes nz: "0 \<notin> set (b_keys binding)"
  shows "binding_match state binding \<longleftrightarrow>
     (npressed state = length (b_keys binding) \<and>
      (\<forall>j<npressed state. b_keys binding ! j = pressed_keys state ! j)) \<or>
     (length (b_keys binding) = 1 \<and> b_keys binding ! 0 = current_key state)"
proof -
  have wf: "state_wf hc state"
    unfolding state_def using fold_apply_state_op_inv[of hc "shortcut_state_zero hc" ops]
    by (simp add: state_wf_zero pressed_zero)
  have ck: "current_key state = 0 \<or> current_key state \<in> fst ` set (pressed state)"
    unfolding state_def
    by (rule current_key_fold_apply_state_op)
       (simp_all add: state_wf_zero, simp add: shortcut_state_zero_def)
  have one: "pressed_keys state ! 0 = current_key state"
    if "npressed state = 1" "length (b_keys binding) = 1" "b_keys binding ! 0 = current_key state"
  proof -
    from that(2) have "b_keys binding ! 0 \<in> set (b_keys binding)" by simp
    with that(3) nz have "current_key state \<noteq> 0" by auto
    with ck have "current_key state \<in> fst ` set (pressed state)" by simp
    moreover have "pressed state = [(pressed_keys state ! 0, pressed_keycodes state ! 0)]"
      using wf that(1)
      by (cases "pressed_keys state"; cases "pressed_keycodes state")
         (auto simp: pressed_def state_wf_def)
    ultimately show ?thesis by simp
  qed
  show ?thesis
    unfolding binding_match_cases using one by auto
qed

end
